theory Spec2Isabelle
  imports Complex_Main "HOL-Library.Multiset"
begin

section \<open>Errors\<close>

text \<open>
  The exceptions the dot-calling functions of \<^verbatim>\<open>cooltools/dotfinder.py\<close> can raise.
  A \<open>KeyError\<close> carries the labels that were not found, an \<open>AssertionError\<close> the kernel
  name and the index of the lambda-bin that its message is formatted with (nothing for an
  assertion without a message).
\<close>

datatype error =
    ZeroDivisionError
  | KeyError "string list"
  | TypeError
  | ValueError
  | IndexError
  | AssertionError "(string \<times> nat) option"

definition ebind :: "error + 'a \<Rightarrow> ('a \<Rightarrow> error + 'b) \<Rightarrow> error + 'b" where
  "ebind m f = (case m of Inl e \<Rightarrow> Inl e | Inr x \<Rightarrow> f x)"

section \<open>Tiling generators\<close>

text \<open>
  \<^verbatim>\<open>diagonal_matrix_tiling(start, stop, bandwidth, edge)\<close>: Python integers are unbounded,
  \<^verbatim>\<open>//\<close> and \<^verbatim>\<open>%\<close> round towards minus infinity as \<open>div\<close> and \<open>mod\<close> on \<open>int\<close> do, and
  a zero divisor raises. The generator is modelled by the list of the spans it yields, in
  order; \<^verbatim>\<open>range(1, tiles)\<close> is \<open>[1..tiles - 1]\<close>.
\<close>

definition n_tiles :: "int \<Rightarrow> int \<Rightarrow> int" where
  "n_tiles sz step = sz div step + (if sz mod step \<noteq> 0 then 1 else 0)"

definition diagonal_matrix_tiling ::
  "int \<Rightarrow> int \<Rightarrow> int \<Rightarrow> int \<Rightarrow> error + (int \<times> int) list" where
  "diagonal_matrix_tiling start stop bandwidth edge =
     (if bandwidth = 0 then Inl ZeroDivisionError
      else
        let sz = stop - start;
            tiles = n_tiles sz bandwidth
        in Inr (map (\<lambda>t.
                  let lw = max 0 (bandwidth * (t - 1) - edge);
                      rw = min sz (bandwidth * (t + 1) + edge)
                  in (lw + start, rw + start))
                [1..tiles - 1]))"

text \<open>
  \<^verbatim>\<open>square_matrix_tiling(start, stop, step, edge, square)\<close>: the two nested loops over
  \<^verbatim>\<open>range(tiles)\<close>; each axis computes its span the same way.
\<close>

definition axis_span :: "int \<Rightarrow> int \<Rightarrow> int \<Rightarrow> bool \<Rightarrow> int \<Rightarrow> int \<times> int" where
  "axis_span sz step edge square t =
     (let lw = max 0 (step * t - edge);
          rw = min sz (step * (t + 1) + edge);
          lw = (if square \<and> rw \<ge> sz then sz - step - edge else lw)
      in (lw, rw))"

definition square_matrix_tiling ::
  "int \<Rightarrow> int \<Rightarrow> int \<Rightarrow> int \<Rightarrow> bool \<Rightarrow> error + ((int \<times> int) \<times> (int \<times> int)) list" where
  "square_matrix_tiling start stop step edge square =
     (if step = 0 then Inl ZeroDivisionError
      else
        let sz = stop - start;
            tiles = n_tiles sz step
        in Inr (concat (map (\<lambda>tx. map (\<lambda>ty.
                  let (lwx, rwx) = axis_span sz step edge square tx;
                      (lwy, rwy) = axis_span sz step edge square ty
                  in ((lwx + start, rwx + start), (lwy + start, rwy + start)))
                [0..tiles - 1]) [0..tiles - 1])))"

text \<open>A pixel \<open>(i, j)\<close> lies in a yielded diagonal tile when both indices are in its span.\<close>

definition covers :: "(int \<times> int) list \<Rightarrow> int \<Rightarrow> int \<Rightarrow> bool" where
  "covers spans i j = list_ex (\<lambda>(lw, rw). lw \<le> i \<and> j < rw) spans"

text \<open>
  Whether every span of a list of square tiles that ends at the matrix boundary \<open>stop\<close> has
  the side length \<open>side\<close>, on both axes.
\<close>

definition boundary_side_is :: "int \<Rightarrow> int \<Rightarrow> ((int \<times> int) \<times> (int \<times> int)) list \<Rightarrow> bool" where
  "boundary_side_is stop side tiles =
     list_all (\<lambda>((lx, rx), (ly, ry)).
        (if rx = stop then rx - lx = side else True) \<and>
        (if ry = stop then ry - ly = side else True)) tiles"

section \<open>Floating-point values\<close>

text \<open>
  A numpy \<^verbatim>\<open>float64\<close> is modelled as a finite real, one of the two infinities, or
  not-a-number. Finite arithmetic is exact: rounding, overflow to infinity and the sign of
  zero are outside the model (a zero divisor counts as \<open>+0\<close>). The special values follow
  IEEE 754, as numpy does under \<^verbatim>\<open>np.errstate(divide='ignore', invalid='ignore')\<close>:
  not-a-number is absorbing and compares false with everything.
\<close>

datatype npfloat = Fin real | PInf | NInf | NaN

fun isnan :: "npfloat \<Rightarrow> bool" where
  "isnan NaN = True"
| "isnan _ = False"

fun isfinite :: "npfloat \<Rightarrow> bool" where
  "isfinite (Fin _) = True"
| "isfinite _ = False"

fun fneg :: "npfloat \<Rightarrow> npfloat" where
  "fneg (Fin a) = Fin (- a)"
| "fneg PInf = NInf"
| "fneg NInf = PInf"
| "fneg NaN = NaN"

fun fadd :: "npfloat \<Rightarrow> npfloat \<Rightarrow> npfloat" where
  "fadd (Fin a) (Fin b) = Fin (a + b)"
| "fadd (Fin a) PInf = PInf"
| "fadd (Fin a) NInf = NInf"
| "fadd PInf (Fin b) = PInf"
| "fadd NInf (Fin b) = NInf"
| "fadd PInf PInf = PInf"
| "fadd NInf NInf = NInf"
| "fadd PInf NInf = NaN"
| "fadd NInf PInf = NaN"
| "fadd NaN _ = NaN"
| "fadd _ NaN = NaN"

fun fmul :: "npfloat \<Rightarrow> npfloat \<Rightarrow> npfloat" where
  "fmul (Fin a) (Fin b) = Fin (a * b)"
| "fmul (Fin a) PInf = (if a = 0 then NaN else if 0 < a then PInf else NInf)"
| "fmul (Fin a) NInf = (if a = 0 then NaN else if 0 < a then NInf else PInf)"
| "fmul PInf (Fin b) = (if b = 0 then NaN else if 0 < b then PInf else NInf)"
| "fmul NInf (Fin b) = (if b = 0 then NaN else if 0 < b then NInf else PInf)"
| "fmul PInf PInf = PInf"
| "fmul NInf NInf = PInf"
| "fmul PInf NInf = NInf"
| "fmul NInf PInf = NInf"
| "fmul NaN _ = NaN"
| "fmul _ NaN = NaN"

fun fdiv :: "npfloat \<Rightarrow> npfloat \<Rightarrow> npfloat" where
  "fdiv (Fin a) (Fin b) =
     (if b = 0 then (if a = 0 then NaN else if 0 < a then PInf else NInf)
      else Fin (a / b))"
| "fdiv (Fin a) PInf = Fin 0"
| "fdiv (Fin a) NInf = Fin 0"
| "fdiv PInf (Fin b) = (if 0 \<le> b then PInf else NInf)"
| "fdiv NInf (Fin b) = (if 0 \<le> b then NInf else PInf)"
| "fdiv PInf PInf = NaN"
| "fdiv NInf NInf = NaN"
| "fdiv PInf NInf = NaN"
| "fdiv NInf PInf = NaN"
| "fdiv NaN _ = NaN"
| "fdiv _ NaN = NaN"

text \<open>The comparisons \<^verbatim>\<open>a < b\<close> and \<^verbatim>\<open>a <= b\<close>; \<^verbatim>\<open>a > b\<close> is \<open>flt b a\<close>.\<close>

fun flt :: "npfloat \<Rightarrow> npfloat \<Rightarrow> bool" where
  "flt (Fin a) (Fin b) = (a < b)"
| "flt (Fin a) PInf = True"
| "flt NInf (Fin b) = True"
| "flt NInf PInf = True"
| "flt _ _ = False"

fun fle :: "npfloat \<Rightarrow> npfloat \<Rightarrow> bool" where
  "fle (Fin a) (Fin b) = (a \<le> b)"
| "fle NaN _ = False"
| "fle _ NaN = False"
| "fle _ PInf = True"
| "fle NInf _ = True"
| "fle _ _ = False"

definition fgt :: "npfloat \<Rightarrow> npfloat \<Rightarrow> bool" where
  "fgt a b = flt b a"

section \<open>Benjamini-Hochberg q-values\<close>

text \<open>
  \<^verbatim>\<open>get_qvals(pvals)\<close>. The p-values are modelled as exact reals (rounding and
  not-a-number entries are outside this part of the model).

  \<^verbatim>\<open>porder = np.argsort(pvals)\<close> is called with the default sort kind, which is not
  stable: numpy only promises a list of the indices \<open>0, \<dots>, n - 1\<close>, each once, along
  which the values ascend, and the order of the indices of equal values is left to the sorting
  algorithm. The model therefore does not compute one such list. \<open>argsort_result xs porder\<close>
  says that \<open>porder\<close> is a list that \<^verbatim>\<open>np.argsort(xs)\<close> may return, and the rest of the
  function is modelled for whichever list was returned.
\<close>

definition argsort_result :: "real list \<Rightarrow> nat list \<Rightarrow> bool" where
  "argsort_result xs porder =
     (sort porder = [0..<length xs] \<and> sorted (map (\<lambda>i. xs ! i) porder))"

text \<open>Fancy-index assignment \<^verbatim>\<open>target[idxs] = vals\<close>.\<close>

definition assign_at :: "nat list \<Rightarrow> nat list \<Rightarrow> nat list \<Rightarrow> nat list" where
  "assign_at target idxs vals = fold (\<lambda>(i, v) t. t[i := v]) (zip idxs vals) target"

text \<open>
  The body of \<^verbatim>\<open>get_qvals\<close>, with \<open>porder\<close> the list that \<^verbatim>\<open>np.argsort(pvals)\<close>
  returned: \<^verbatim>\<open>prank[porder] = np.arange(1, n_obs + 1)\<close> writes the value \<open>r + 1\<close> at the
  index \<open>porder[r]\<close> (\<^verbatim>\<open>np.empty_like\<close> is an array of the same length whose initial
  content is overwritten), and the result is \<^verbatim>\<open>n_obs * pvals / prank\<close>, entry by entry.
\<close>

definition get_qvals :: "nat list \<Rightarrow> real list \<Rightarrow> real list" where
  "get_qvals porder pvals =
     (let n_obs = length pvals;
          prank = assign_at (replicate n_obs 0) porder [1..<n_obs + 1]
      in map2 (\<lambda>p r. real n_obs * p / real r) pvals prank)"

text \<open>
  One list that \<^verbatim>\<open>np.argsort\<close> may return, for every input: the indices sorted by value
  with ties in input order. It shows that a result exists for every array.
\<close>

definition stable_argsort :: "real list \<Rightarrow> nat list" where
  "stable_argsort xs = map snd (sort_key fst (zip xs [0..<length xs]))"

text \<open>
  The 1-based ascending rank of the \<open>i\<close>-th p-value, as the claim words it: its position,
  counted from one, in the ascending order \<open>porder\<close> of the p-values.
\<close>

definition rank_in :: "nat list \<Rightarrow> nat \<Rightarrow> nat" where
  "rank_in porder i = 1 + length (takeWhile (\<lambda>k. k \<noteq> i) porder)"

text \<open>The number of p-values smaller than the \<open>i\<close>-th, and of those not larger than it.\<close>

definition count_below :: "real list \<Rightarrow> nat \<Rightarrow> nat" where
  "count_below ps i = length (filter (\<lambda>j. ps ! j < ps ! i) [0..<length ps])"

definition count_upto :: "real list \<Rightarrow> nat \<Rightarrow> nat" where
  "count_upto ps i = length (filter (\<lambda>j. ps ! j \<le> ps ! i) [0..<length ps])"

section \<open>Data frames\<close>

text \<open>
  A pandas \<^verbatim>\<open>DataFrame\<close> is modelled by its columns, in order: each a name and the list
  of its cells, all of one length. A cell is an integer, a float or a string (the chromosome
  names). Column names are distinct and the row index is not modelled. \<^verbatim>\<open>df[name]\<close>
  raises \<^verbatim>\<open>KeyError\<close> for a missing column.
\<close>

datatype cell = Intg int | Num npfloat | Str string

type_synonym dataframe = "(string \<times> cell list) list"

definition nrows :: "dataframe \<Rightarrow> nat" where
  "nrows df = (case df of [] \<Rightarrow> 0 | (_, xs) # _ \<Rightarrow> length xs)"

definition wf_dataframe :: "dataframe \<Rightarrow> bool" where
  "wf_dataframe df = (distinct (map fst df) \<and> list_all (\<lambda>(_, xs). length xs = nrows df) df)"

definition getcol :: "dataframe \<Rightarrow> string \<Rightarrow> error + cell list" where
  "getcol df c = (case map_of df c of None \<Rightarrow> Inl (KeyError [c]) | Some xs \<Rightarrow> Inr xs)"

text \<open>
  In arithmetic and comparisons with floats an integer counts as the float of the same value;
  a string raises \<^verbatim>\<open>TypeError\<close>. An element-wise operation on a column fails when it
  fails on one of its cells.
\<close>

fun num :: "cell \<Rightarrow> error + npfloat" where
  "num (Intg z) = Inr (Fin (of_int z))"
| "num (Num x) = Inr x"
| "num (Str _) = Inl TypeError"

fun emap :: "('a \<Rightarrow> error + 'b) \<Rightarrow> 'a list \<Rightarrow> error + 'b list" where
  "emap f [] = Inr []"
| "emap f (x # xs) = ebind (f x) (\<lambda>y. ebind (emap f xs) (\<lambda>ys. Inr (y # ys)))"

definition scalar_mul :: "real \<Rightarrow> cell list \<Rightarrow> error + cell list" where
  "scalar_mul k xs = emap (\<lambda>c. ebind (num c) (\<lambda>x. Inr (Num (fmul (Fin k) x)))) xs"

definition series_add :: "cell list \<Rightarrow> cell list \<Rightarrow> error + cell list" where
  "series_add xs ys =
     emap (\<lambda>(a, b). ebind (num a) (\<lambda>x. ebind (num b) (\<lambda>y. Inr (Num (fadd x y))))) (zip xs ys)"

definition series_gt :: "cell list \<Rightarrow> cell list \<Rightarrow> error + bool list" where
  "series_gt xs ys =
     emap (\<lambda>(a, b). ebind (num a) (\<lambda>x. ebind (num b) (\<lambda>y. Inr (fgt x y)))) (zip xs ys)"

definition series_gt_scalar :: "cell list \<Rightarrow> real \<Rightarrow> error + bool list" where
  "series_gt_scalar xs k = emap (\<lambda>a. ebind (num a) (\<lambda>x. Inr (fgt x (Fin k)))) xs"

definition series_le_scalar :: "cell list \<Rightarrow> real \<Rightarrow> error + bool list" where
  "series_le_scalar xs k = emap (\<lambda>a. ebind (num a) (\<lambda>x. Inr (fle x (Fin k)))) xs"

definition series_and :: "bool list \<Rightarrow> bool list \<Rightarrow> bool list" where
  "series_and xs ys = map2 (\<and>) xs ys"

definition series_or :: "bool list \<Rightarrow> bool list \<Rightarrow> bool list" where
  "series_or xs ys = map2 (\<or>) xs ys"

text \<open>Boolean-mask row selection \<^verbatim>\<open>df[mask]\<close> and column projection \<^verbatim>\<open>df[names]\<close>.\<close>

definition select_mask :: "bool list \<Rightarrow> 'a list \<Rightarrow> 'a list" where
  "select_mask msk xs = map snd (filter fst (zip msk xs))"

definition filter_rows :: "dataframe \<Rightarrow> bool list \<Rightarrow> dataframe" where
  "filter_rows df msk = map (\<lambda>(c, xs). (c, select_mask msk xs)) df"

definition select_columns :: "dataframe \<Rightarrow> string list \<Rightarrow> error + dataframe" where
  "select_columns df names =
     (case filter (\<lambda>c. map_of df c = None) names of
        [] \<Rightarrow> Inr (map (\<lambda>c. (c, the (map_of df c))) names)
      | missing \<Rightarrow> Inl (KeyError missing))"

text \<open>The numeric value of column \<open>c\<close> in row \<open>i\<close> of a table (not-a-number where there is none).\<close>

definition cell_value :: "dataframe \<Rightarrow> nat \<Rightarrow> string \<Rightarrow> npfloat" where
  "cell_value df i c =
     (case map_of df c of
        None \<Rightarrow> NaN
      | Some xs \<Rightarrow> (case num (xs ! i) of Inr x \<Rightarrow> x | Inl _ \<Rightarrow> NaN))"

text \<open>The name of the column with the locally adjusted expected of kernel \<open>k\<close>.\<close>

definition la_exp_value :: "string \<Rightarrow> string" where
  "la_exp_value k = ''la_exp.'' @ k @ ''.value''"

section \<open>Locally adjusted expected of a tile\<close>

text \<open>
  \<^verbatim>\<open>get_adjusted_expected_tile_some_nans(origin, observed, expected, bal_weights, kernels,
  balance_factor)\<close>. A dense array is a list of rows; the tile has the shape of
  \<open>observed\<close>, and the other arrays are taken to agree with it in shape (numpy would raise or
  broadcast otherwise, which is not modelled). The raw observed counts are integers. The
  balancing weights are one array, a couple of arrays, or anything else, which is refused.
  The kernels are the items of the dictionary, in order, with distinct names.
\<close>

datatype bal_weights =
    WeightsArray "npfloat list"
  | WeightsCouple "npfloat list" "npfloat list"
  | WeightsOther

definition weights_of :: "bal_weights \<Rightarrow> error + (npfloat list \<times> npfloat list)" where
  "weights_of w =
     (case w of
        WeightsArray v \<Rightarrow> Inr (v, v)
      | WeightsCouple v_bal_i v_bal_j \<Rightarrow> Inr (v_bal_i, v_bal_j)
      | WeightsOther \<Rightarrow> Inl ValueError)"

definition mat_rows :: "'a list list \<Rightarrow> nat" where
  "mat_rows M = length M"

definition mat_cols :: "'a list list \<Rightarrow> nat" where
  "mat_cols M = (case M of [] \<Rightarrow> 0 | r # _ \<Rightarrow> length r)"

text \<open>The cells of an \<open>n\<close> by \<open>m\<close> array in the row-major order of \<^verbatim>\<open>flatten()\<close>.\<close>

definition positions :: "nat \<Rightarrow> nat \<Rightarrow> (nat \<times> nat) list" where
  "positions n m = concat (map (\<lambda>i. map (\<lambda>j. (i, j)) [0..<m]) [0..<n])"

definition outer :: "npfloat list \<Rightarrow> npfloat list \<Rightarrow> nat \<Rightarrow> nat \<Rightarrow> npfloat" where
  "outer u v i j = fmul (u ! i) (v ! j)"

text \<open>
  \<^verbatim>\<open>np.tril_indices_from(A, k)\<close> are the cells \<open>(i, j)\<close> with \<open>j - i \<le> k\<close>; the code takes
  \<open>k = (io - jo) - 1\<close>, so that the masked cells are those with \<open>j + jo < i + io\<close>.
\<close>

definition in_tril :: "int \<Rightarrow> nat \<Rightarrow> nat \<Rightarrow> bool" where
  "in_tril k i j = (int j - int i \<le> k)"

text \<open>
  The arrays the function derives before the convolutions: the balanced observed and expected
  with the lower triangle set to not-a-number and then zero-filled on the common mask, the
  raw expected, and the common mask of not-a-numbers.
\<close>

record balanced_tile =
  tile_n :: nat
  tile_m :: nat
  O_bal :: "nat \<Rightarrow> nat \<Rightarrow> npfloat"
  E_bal :: "nat \<Rightarrow> nat \<Rightarrow> npfloat"
  E_raw :: "nat \<Rightarrow> nat \<Rightarrow> npfloat"
  N_bal :: "nat \<Rightarrow> nat \<Rightarrow> bool"

definition balance_tile ::
  "int \<times> int \<Rightarrow> int list list \<Rightarrow> npfloat list list \<Rightarrow> npfloat list \<Rightarrow> npfloat list \<Rightarrow> balanced_tile" where
  "balance_tile origin observed expected v_bal_i v_bal_j =
     (let (io, jo) = origin;
          O_masked = (\<lambda>i j. if in_tril ((io - jo) - 1) i j then NaN
                            else fmul (Fin (of_int (observed ! i ! j))) (outer v_bal_i v_bal_j i j));
          E_masked = (\<lambda>i j. if in_tril ((io - jo) - 1) i j then NaN else expected ! i ! j);
          nans = (\<lambda>i j. isnan (O_masked i j) \<or> isnan (E_masked i j))
      in \<lparr> tile_n = mat_rows observed,
           tile_m = mat_cols observed,
           O_bal = (\<lambda>i j. if nans i j then Fin 0 else O_masked i j),
           E_bal = (\<lambda>i j. if nans i j then Fin 0 else E_masked i j),
           E_raw = (\<lambda>i j. fdiv (E_masked i j) (outer v_bal_i v_bal_j i j)),
           N_bal = nans \<rparr>)"

text \<open>
  \<^verbatim>\<open>scipy.ndimage.convolve(input, kernel, mode='constant', cval=c, origin=0)\<close>: the value at
  \<open>(i, j)\<close> is the sum over the cells \<open>(a, b)\<close> of the kernel of
  \<open>kernel[a, b] * input[i + p div 2 - a, j + q div 2 - b]\<close>, the input counting as \<open>c\<close>
  outside the array. The library skips the weights that are not above the machine epsilon
  \<open>2\<^sup>-\<^sup>5\<^sup>2\<close> in absolute value, and accumulates from zero in the row-major order of the kernel.
\<close>

definition in_footprint :: "npfloat \<Rightarrow> bool" where
  "in_footprint w =
     (case w of Fin a \<Rightarrow> 1 / 2 ^ 52 < \<bar>a\<bar> | PInf \<Rightarrow> True | NInf \<Rightarrow> True | NaN \<Rightarrow> False)"

definition padded :: "(nat \<Rightarrow> nat \<Rightarrow> 'a) \<Rightarrow> nat \<Rightarrow> nat \<Rightarrow> 'a \<Rightarrow> int \<Rightarrow> int \<Rightarrow> 'a" where
  "padded inp n m cval r c =
     (if 0 \<le> r \<and> r < int n \<and> 0 \<le> c \<and> c < int m then inp (nat r) (nat c) else cval)"

definition convolve ::
  "(nat \<Rightarrow> nat \<Rightarrow> npfloat) \<Rightarrow> nat \<Rightarrow> nat \<Rightarrow> npfloat list list \<Rightarrow> npfloat \<Rightarrow> nat \<Rightarrow> nat \<Rightarrow> npfloat" where
  "convolve inp n m ker cval i j =
     (let p = mat_rows ker; q = mat_cols ker
      in fold (\<lambda>(a, b) tmp.
                 if in_footprint (ker ! a ! b)
                 then fadd tmp (fmul (ker ! a ! b)
                        (padded inp n m cval (int i + int (p div 2) - int a)
                                             (int j + int (q div 2) - int b)))
                 else tmp)
              (positions p q) (Fin 0))"

text \<open>
  The number of not-a-numbers in the footprint \<^verbatim>\<open>kernel != 0\<close> around a cell: the same
  convolution on the mask cast to integers, with the value 1 outside the array.
\<close>

definition count_nans ::
  "(nat \<Rightarrow> nat \<Rightarrow> bool) \<Rightarrow> nat \<Rightarrow> nat \<Rightarrow> npfloat list list \<Rightarrow> nat \<Rightarrow> nat \<Rightarrow> int" where
  "count_nans nans n m ker i j =
     (let p = mat_rows ker; q = mat_cols ker
      in fold (\<lambda>(a, b) tmp.
                 if ker ! a ! b \<noteq> Fin 0
                 then tmp + (if padded nans n m True (int i + int (p div 2) - int a)
                                                     (int j + int (q div 2) - int b)
                             then 1 else 0)
                 else tmp)
              (positions p q) 0)"

definition Ek_raw :: "balanced_tile \<Rightarrow> npfloat list list \<Rightarrow> nat \<Rightarrow> nat \<Rightarrow> npfloat" where
  "Ek_raw t ker i j =
     (let KO = convolve (O_bal t) (tile_n t) (tile_m t) ker (Fin 0) i j;
          KE = convolve (E_bal t) (tile_n t) (tile_m t) ker (Fin 0) i j
      in fmul (E_raw t i j) (fdiv KO KE))"

text \<open>
  Column assignment \<^verbatim>\<open>df[name] = values\<close>: an existing column is replaced where it
  stands, a new one is appended.
\<close>

definition set_column :: "dataframe \<Rightarrow> string \<Rightarrow> cell list \<Rightarrow> dataframe" where
  "set_column df name vals =
     (if name \<in> set (map fst df)
      then map (\<lambda>(c, xs). if c = name then (c, vals) else (c, xs)) df
      else df @ [(name, vals)])"

definition la_exp_nnans :: "string \<Rightarrow> string" where
  "la_exp_nnans k = ''la_exp.'' @ k @ ''.nnans''"

text \<open>Truth value of \<^verbatim>\<open>balance_factor\<close>: \<^verbatim>\<open>None\<close> and zero are false.\<close>

definition truthy :: "npfloat option \<Rightarrow> bool" where
  "truthy f = (case f of None \<Rightarrow> False | Some x \<Rightarrow> x \<noteq> Fin 0)"

definition kernel_columns ::
  "balanced_tile \<Rightarrow> npfloat option \<Rightarrow> string \<times> npfloat list list \<Rightarrow> dataframe \<Rightarrow> dataframe" where
  "kernel_columns t balance_factor item peaks_df =
     (let (kernel_name, ker) = item;
          cells = positions (tile_n t) (tile_m t);
          KO = convolve (O_bal t) (tile_n t) (tile_m t) ker (Fin 0);
          NN = count_nans (N_bal t) (tile_n t) (tile_m t) ker;
          df1 = (if truthy balance_factor \<and> kernel_name = ''lowleft''
                 then set_column peaks_df (''factor_balance.'' @ kernel_name @ ''.KerObs'')
                        (map (\<lambda>(i, j). Num (fmul (the balance_factor) (KO i j))) cells)
                 else peaks_df);
          df2 = set_column df1 (la_exp_value kernel_name)
                  (map (\<lambda>(i, j). Num (Ek_raw t ker i j)) cells)
      in set_column df2 (la_exp_nnans kernel_name) (map (\<lambda>(i, j). Intg (NN i j)) cells))"

definition unfiltered_peaks ::
  "int \<times> int \<Rightarrow> int list list \<Rightarrow> balanced_tile \<Rightarrow> (string \<times> npfloat list list) list \<Rightarrow> npfloat option \<Rightarrow> dataframe" where
  "unfiltered_peaks origin observed t kernels balance_factor =
     (let (io, jo) = origin;
          cells = positions (tile_n t) (tile_m t);
          df0 = [(''bin1_id'', map (\<lambda>(i, j). Intg (int i + io)) cells),
                 (''bin2_id'', map (\<lambda>(i, j). Intg (int j + jo)) cells)];
          df1 = fold (kernel_columns t balance_factor) kernels df0;
          df2 = set_column df1 ''exp.raw'' (map (\<lambda>(i, j). Num (E_raw t i j)) cells)
      in set_column df2 ''obs.raw'' (map (\<lambda>(i, j). Intg (observed ! i ! j)) cells))"

text \<open>The accumulation of the mask of rows with a non-finite adjusted expected.\<close>

fun cell_isfinite :: "cell \<Rightarrow> error + bool" where
  "cell_isfinite (Intg _) = Inr True"
| "cell_isfinite (Num x) = Inr (isfinite x)"
| "cell_isfinite (Str _) = Inl TypeError"

fun mask_loop :: "dataframe \<Rightarrow> (string \<times> npfloat list list) list \<Rightarrow> bool list \<Rightarrow> error + bool list" where
  "mask_loop peaks_df [] mask_ndx = Inr mask_ndx"
| "mask_loop peaks_df ((kernel_name, ker) # items) mask_ndx =
     ebind (getcol peaks_df (la_exp_value kernel_name)) (\<lambda>la.
     ebind (emap cell_isfinite la) (\<lambda>finite_k.
     mask_loop peaks_df items (series_or (map Not finite_k) mask_ndx)))"

definition series_lt :: "cell list \<Rightarrow> cell list \<Rightarrow> error + bool list" where
  "series_lt xs ys =
     emap (\<lambda>(a, b). ebind (num a) (\<lambda>x. ebind (num b) (\<lambda>y. Inr (flt x y)))) (zip xs ys)"

definition get_adjusted_expected_tile_some_nans ::
  "int \<times> int \<Rightarrow> int list list \<Rightarrow> npfloat list list \<Rightarrow> bal_weights
     \<Rightarrow> (string \<times> npfloat list list) list \<Rightarrow> npfloat option \<Rightarrow> error + dataframe" where
  "get_adjusted_expected_tile_some_nans origin observed expected bal_weights kernels balance_factor =
     ebind (weights_of bal_weights) (\<lambda>(v_bal_i, v_bal_j).
       let t = balance_tile origin observed expected v_bal_i v_bal_j;
           peaks_df = unfiltered_peaks origin observed t kernels balance_factor
       in ebind (mask_loop peaks_df kernels (replicate (nrows peaks_df) False)) (\<lambda>mask_ndx.
          ebind (getcol peaks_df ''bin1_id'') (\<lambda>bin1.
          ebind (getcol peaks_df ''bin2_id'') (\<lambda>bin2.
          ebind (series_lt bin1 bin2) (\<lambda>upper_band.
          Inr (filter_rows peaks_df (series_and (map Not mask_ndx) upper_band)))))))"

section \<open>Lambda-chunking histograms\<close>

text \<open>
  \<^verbatim>\<open>pd.cut(values, ledges)\<close> with the default \<^verbatim>\<open>right=True\<close>: the edges must increase,
  the bins are the intervals \<open>(ledges[i], ledges[i+1]]\<close>, and a value gets the index of its
  bin, found as pandas does by \<^verbatim>\<open>searchsorted(side='left')\<close>: the number of edges below the
  value, minus one. Not-a-number and values outside all bins get no bin.
\<close>

definition cut_bin :: "npfloat list \<Rightarrow> npfloat \<Rightarrow> nat option" where
  "cut_bin bins x =
     (let ids = length (filter (\<lambda>e. flt e x) bins)
      in if isnan x \<or> ids = length bins \<or> ids = 0 then None else Some (ids - 1))"

definition pd_cut :: "cell list \<Rightarrow> npfloat list \<Rightarrow> error + nat option list" where
  "pd_cut xs bins =
     (if \<not> sorted_wrt flt bins then Inl ValueError
      else emap (\<lambda>c. ebind (num c) (\<lambda>x. Inr (cut_bin bins x))) xs)"

text \<open>
  \<^verbatim>\<open>np.bincount\<close> of non-negative integers: one count per value from 0 to the maximum; the
  empty array for no input; an error for a negative entry.
\<close>

definition bincount :: "int list \<Rightarrow> error + nat list" where
  "bincount xs =
     (if list_ex (\<lambda>x. x < 0) xs then Inl ValueError
      else Inr (map (\<lambda>v. count_list xs (int v))
                  [0..<(if xs = [] then 0 else nat (fold max xs 0) + 1)]))"

text \<open>The assertion that the column of observed counts has an integer dtype.\<close>

definition check_integer :: "cell list \<Rightarrow> error + int list" where
  "check_integer xs =
     emap (\<lambda>c. case c of Intg z \<Rightarrow> Inr z | _ \<Rightarrow> Inl (AssertionError None)) xs"

text \<open>
  A histogram of one kernel is a frame with one column per lambda-bin, labelled by the index
  of the bin in \<open>ledges\<close>, and one row per observed count \<open>0, 1, 2, \<dots>\<close>. Grouping by a
  categorical visits every bin, also the empty ones, so every tile gives the same columns.
  \<^verbatim>\<open>pd.DataFrame(obs_hist).fillna(0)\<close> pads the columns with zeros to a common length.
\<close>

type_synonym hist_frame = "(nat \<times> nat list) list"

type_synonym hists = "string \<rightharpoonup> hist_frame"

definition group_rows :: "nat option list \<Rightarrow> 'a list \<Rightarrow> nat \<Rightarrow> 'a list" where
  "group_rows lbins xs lbin = map snd (filter (\<lambda>(l, _). l = Some lbin) (zip lbins xs))"

definition obs_hist_column ::
  "dataframe \<Rightarrow> nat option list \<Rightarrow> nat \<Rightarrow> error + (nat \<times> nat list)" where
  "obs_hist_column scored_df lbins lbin =
     ebind (getcol scored_df ''obs.raw'') (\<lambda>obs.
     ebind (check_integer obs) (\<lambda>counts.
     ebind (bincount (group_rows lbins counts lbin)) (\<lambda>h.
     Inr (lbin, h))))"

definition frame_of_columns :: "(nat \<times> nat list) list \<Rightarrow> hist_frame" where
  "frame_of_columns cols =
     (let n = fold max (map (\<lambda>(_, h). length h) cols) 0
      in map (\<lambda>(lbin, h). (lbin, h @ replicate (n - length h) 0)) cols)"

definition kernel_histogram :: "dataframe \<Rightarrow> npfloat list \<Rightarrow> string \<Rightarrow> error + hist_frame" where
  "kernel_histogram scored_df ledges k =
     ebind (getcol scored_df (la_exp_value k)) (\<lambda>la.
     ebind (pd_cut la ledges) (\<lambda>lbins.
     ebind (emap (obs_hist_column scored_df lbins) [0..<length ledges - 1]) (\<lambda>obs_hist.
     Inr (frame_of_columns obs_hist))))"

text \<open>
  A loop \<^verbatim>\<open>for k in kernels: d[k] = f(k)\<close> that fills a dictionary, stopping at the first
  error.
\<close>

fun build_dict :: "(string \<Rightarrow> error + 'v) \<Rightarrow> string list \<Rightarrow> (string \<rightharpoonup> 'v) \<Rightarrow> error + (string \<rightharpoonup> 'v)" where
  "build_dict f [] d = Inr d"
| "build_dict f (k # ks) d = ebind (f k) (\<lambda>v. build_dict f ks (d(k \<mapsto> v)))"

definition histogram_scored_pixels :: "dataframe \<Rightarrow> string list \<Rightarrow> npfloat list \<Rightarrow> error + hists" where
  "histogram_scored_pixels scored_df kernels ledges =
     build_dict (kernel_histogram scored_df ledges) kernels Map.empty"

text \<open>
  \<^verbatim>\<open>hx[k].add(hy[k], fill_value=0).astype(np.integer)\<close>: the frames are aligned on the
  union of their row labels and of their column labels (the columns of one of them when both
  have the same, the sorted union otherwise); a cell present in one frame only is added to
  0; a cell absent from both is not-a-number, which the conversion to integers refuses.
\<close>

definition frame_rows :: "hist_frame \<Rightarrow> nat" where
  "frame_rows f = (case f of [] \<Rightarrow> 0 | (_, h) # _ \<Rightarrow> length h)"

definition frame_cell :: "hist_frame \<Rightarrow> nat \<Rightarrow> nat \<Rightarrow> nat option" where
  "frame_cell f lbin r =
     (case map_of f lbin of
        None \<Rightarrow> None
      | Some h \<Rightarrow> if r < length h then Some (h ! r) else None)"

definition add_cells :: "nat option \<Rightarrow> nat option \<Rightarrow> error + nat" where
  "add_cells u v =
     (case (u, v) of
        (None, None) \<Rightarrow> Inl ValueError
      | (Some a, None) \<Rightarrow> Inr (a + 0)
      | (None, Some b) \<Rightarrow> Inr (0 + b)
      | (Some a, Some b) \<Rightarrow> Inr (a + b))"

definition frame_add :: "hist_frame \<Rightarrow> hist_frame \<Rightarrow> error + hist_frame" where
  "frame_add x y =
     (let labels = (if map fst x = map fst y then map fst x
                    else sort (remdups (map fst x @ map fst y)));
          n = max (frame_rows x) (frame_rows y)
      in emap (\<lambda>lbin.
           ebind (emap (\<lambda>r. add_cells (frame_cell x lbin r) (frame_cell y lbin r)) [0..<n])
             (\<lambda>h. Inr (lbin, h)))
         labels)"

definition sum_hists :: "string list \<Rightarrow> hists \<Rightarrow> hists \<Rightarrow> error + hists" where
  "sum_hists kernels hx hy =
     build_dict (\<lambda>k.
        case hx k of
          None \<Rightarrow> Inl (KeyError [k])
        | Some fx \<Rightarrow> (case hy k of
                       None \<Rightarrow> Inl (KeyError [k])
                     | Some fy \<Rightarrow> frame_add fx fy))
       kernels Map.empty"

text \<open>
  \<^verbatim>\<open>reduce(_sum_hists, hchunks)\<close> over the lazy \<^verbatim>\<open>map_(job, tiles)\<close>: the histogram of
  a tile is computed when \<open>reduce\<close> asks for it, so the first error in this order is the one
  raised; an empty sequence is a \<^verbatim>\<open>TypeError\<close>. The job of a tile is the histogramming of
  its table of scored pixels (the scoring itself reads the contact matrix and is not part of
  the model).
\<close>

fun reduce_from :: "('a \<Rightarrow> 'a \<Rightarrow> error + 'a) \<Rightarrow> ('t \<Rightarrow> error + 'a) \<Rightarrow> 'a \<Rightarrow> 't list \<Rightarrow> error + 'a" where
  "reduce_from f job acc [] = Inr acc"
| "reduce_from f job acc (t # ts) =
     ebind (job t) (\<lambda>x. ebind (f acc x) (\<lambda>acc'. reduce_from f job acc' ts))"

fun reduce_map :: "('a \<Rightarrow> 'a \<Rightarrow> error + 'a) \<Rightarrow> ('t \<Rightarrow> error + 'a) \<Rightarrow> 't list \<Rightarrow> error + 'a" where
  "reduce_map f job [] = Inl TypeError"
| "reduce_map f job (t # ts) = ebind (job t) (\<lambda>x. reduce_from f job x ts)"

definition merge_tile_histograms :: "dataframe list \<Rightarrow> string list \<Rightarrow> npfloat list \<Rightarrow> error + hists" where
  "merge_tile_histograms scored_tiles kernels ledges =
     reduce_map (sum_hists kernels)
       (\<lambda>scored_df. histogram_scored_pixels scored_df kernels ledges) scored_tiles"

text \<open>
  The check of the top bin and its removal, kernel by kernel: the last column of the merged
  frame must sum to zero; the assertion names the kernel and the bin.
\<close>

fun check_top_bins :: "string list \<Rightarrow> hists \<Rightarrow> error + hists" where
  "check_top_bins [] final_hist = Inr final_hist"
| "check_top_bins (k # ks) final_hist =
     (case final_hist k of
        None \<Rightarrow> Inl (KeyError [k])
      | Some f \<Rightarrow>
          if f = [] then Inl IndexError
          else
            let last_la_exp_bin = fst (last f);
                last_la_exp_vals = snd (last f)
            in if sum_list last_la_exp_vals \<noteq> 0
               then Inl (AssertionError (Some (k, last_la_exp_bin)))
               else check_top_bins ks
                      (final_hist(k \<mapsto> filter (\<lambda>(lbin, _). lbin \<noteq> last_la_exp_bin) f)))"

definition scoring_and_histogramming_step ::
  "dataframe list \<Rightarrow> string list \<Rightarrow> npfloat list \<Rightarrow> error + hists" where
  "scoring_and_histogramming_step scored_tiles kernels ledges =
     ebind (merge_tile_histograms scored_tiles kernels ledges) (check_top_bins kernels)"

text \<open>
  What the merge amounts to on frames with the same columns: the counts of each column are
  added entry by entry, the shorter column counting as zeros beyond its end.
\<close>

definition padd :: "nat list \<Rightarrow> nat list \<Rightarrow> nat list" where
  "padd u v =
     map (\<lambda>r. (if r < length u then u ! r else 0) + (if r < length v then v ! r else 0))
       [0..<max (length u) (length v)]"

definition frame_plus :: "hist_frame \<Rightarrow> hist_frame \<Rightarrow> hist_frame" where
  "frame_plus x y = map (\<lambda>(lbin, u). (lbin, padd u (the (map_of y lbin)))) x"

definition hists_plus :: "string list \<Rightarrow> hists \<Rightarrow> hists \<Rightarrow> hists" where
  "hists_plus kernels hx hy =
     (\<lambda>k. if k \<in> set kernels then Some (frame_plus (the (hx k)) (the (hy k))) else None)"

text \<open>
  The shape of a tile's histograms: a frame for each kernel and for no other name, with the
  columns \<open>0, \<dots>, m - 1\<close>, all of one length.
\<close>

definition wf_frame :: "nat \<Rightarrow> hist_frame \<Rightarrow> bool" where
  "wf_frame m f = (map fst f = [0..<m] \<and> list_all (\<lambda>(_, h). length h = frame_rows f) f)"

definition wf_hists :: "string list \<Rightarrow> nat \<Rightarrow> hists \<Rightarrow> bool" where
  "wf_hists kernels m h =
     (dom h = set kernels \<and> list_all (\<lambda>k. case h k of None \<Rightarrow> False | Some f \<Rightarrow> wf_frame m f) kernels)"

text \<open>The total count in the last column (the top bin) of the frame of kernel \<open>k\<close>.\<close>

definition top_bin_count :: "hists \<Rightarrow> string \<Rightarrow> nat" where
  "top_bin_count h k = (case h k of None \<Rightarrow> 0 | Some f \<Rightarrow> sum_list (snd (last f)))"

text \<open>
  Three tiles of scored pixels with the kernels donut and lowleft (the last tile has no
  pixel), a ladder whose top bin \<open>(2, +\<infinity>]\<close> stays empty on them, and a shorter ladder whose
  top bin \<open>(1, +\<infinity>]\<close> does not.
\<close>

definition example_tile_a :: dataframe where
  "example_tile_a =
     [(''obs.raw'', [Intg 3, Intg 0, Intg 3]),
      (''la_exp.donut.value'', [Num (Fin 0.5), Num (Fin 1.5), Num (Fin 0.7)]),
      (''la_exp.lowleft.value'', [Num (Fin 1), Num (Fin 1.2), Num (Fin 1.9)])]"

definition example_tile_b :: dataframe where
  "example_tile_b =
     [(''obs.raw'', [Intg 1]),
      (''la_exp.donut.value'', [Num (Fin 1.5)]),
      (''la_exp.lowleft.value'', [Num (Fin 0.2)])]"

definition example_tile_c :: dataframe where
  "example_tile_c =
     [(''obs.raw'', []),
      (''la_exp.donut.value'', []),
      (''la_exp.lowleft.value'', [])]"

definition example_kernels :: "string list" where
  "example_kernels = [''donut'', ''lowleft'']"

definition example_ledges :: "npfloat list" where
  "example_ledges = [NInf, Fin 1, Fin 2, PInf]"

definition example_short_ledges :: "npfloat list" where
  "example_short_ledges = [NInf, Fin 1, PInf]"

section \<open>Extraction of the pixels above the thresholds\<close>

text \<open>
  The thresholds of a kernel are a \<^verbatim>\<open>Series\<close> indexed by right-closed intervals
  \<open>(left, right]\<close>. \<^verbatim>\<open>series.loc[keys]\<close> looks each key up by containment: a key in no
  interval raises \<^verbatim>\<open>KeyError\<close>; a key in several intervals gives several values, and the
  result no longer has one value per row, which the comparison that follows refuses.
\<close>

type_synonym threshold_series = "((npfloat \<times> npfloat) \<times> cell) list"

definition interval_contains :: "npfloat \<times> npfloat \<Rightarrow> npfloat \<Rightarrow> bool" where
  "interval_contains iv v = (flt (fst iv) v \<and> fle v (snd iv))"

definition loc_matches :: "threshold_series \<Rightarrow> npfloat \<Rightarrow> cell list" where
  "loc_matches s v = map snd (filter (\<lambda>(iv, _). interval_contains iv v) s)"

definition interval_loc :: "threshold_series \<Rightarrow> cell list \<Rightarrow> error + cell list" where
  "interval_loc s keys =
     ebind (emap num keys) (\<lambda>vs.
       if list_ex (\<lambda>v. loc_matches s v = []) vs then Inl (KeyError [])
       else if list_ex (\<lambda>v. 1 < length (loc_matches s v)) vs then Inl ValueError
       else Inr (map (\<lambda>v. hd (loc_matches s v)) vs))"

text \<open>
  \<^verbatim>\<open>extract_scored_pixels(scored_df, kernels, thresholds, ledges, verbose)\<close>: the loop
  over the kernels that accumulates the mask, then the selection of the rows.
\<close>

fun comply_fdr_loop ::
  "dataframe \<Rightarrow> (string \<rightharpoonup> threshold_series) \<Rightarrow> string list \<Rightarrow> bool list \<Rightarrow> error + bool list" where
  "comply_fdr_loop scored_df thresholds [] comply_fdr_list = Inr comply_fdr_list"
| "comply_fdr_loop scored_df thresholds (k # ks) comply_fdr_list =
     ebind (getcol scored_df ''obs.raw'') (\<lambda>obs.
     case thresholds k of
       None \<Rightarrow> Inl (KeyError [k])
     | Some s \<Rightarrow>
         ebind (getcol scored_df (la_exp_value k)) (\<lambda>la.
         ebind (interval_loc s la) (\<lambda>t.
         ebind (series_gt obs t) (\<lambda>comply_fdr_k.
         comply_fdr_loop scored_df thresholds ks (series_and comply_fdr_list comply_fdr_k)))))"

definition extract_scored_pixels ::
  "dataframe \<Rightarrow> string list \<Rightarrow> (string \<rightharpoonup> threshold_series) \<Rightarrow> npfloat list \<Rightarrow> error + dataframe" where
  "extract_scored_pixels scored_df kernels thresholds ledges =
     ebind (comply_fdr_loop scored_df thresholds kernels (replicate (nrows scored_df) True))
       (\<lambda>comply_fdr_list. Inr (filter_rows scored_df comply_fdr_list))"

text \<open>
  The rule as the specification words it, for row \<open>i\<close>: for every kernel, the observed count
  strictly exceeds the threshold of the interval that contains the locally-adjusted expected
  of that kernel.
\<close>

definition cell_num :: "cell \<Rightarrow> npfloat" where
  "cell_num c = (case num c of Inr x \<Rightarrow> x | Inl _ \<Rightarrow> NaN)"

definition exceeds_threshold :: "dataframe \<Rightarrow> (string \<rightharpoonup> threshold_series) \<Rightarrow> nat \<Rightarrow> string \<Rightarrow> bool" where
  "exceeds_threshold df thresholds i k =
     (case thresholds k of
        None \<Rightarrow> False
      | Some s \<Rightarrow>
          list_ex (\<lambda>(iv, t). interval_contains iv (cell_value df i (la_exp_value k)) \<and>
                             fgt (cell_value df i ''obs.raw'') (cell_num t)) s)"

definition complying_rows :: "dataframe \<Rightarrow> string list \<Rightarrow> (string \<rightharpoonup> threshold_series) \<Rightarrow> nat list" where
  "complying_rows df kernels thresholds =
     filter (\<lambda>i. list_all (exceeds_threshold df thresholds i) kernels) [0..<nrows df]"

text \<open>Thresholds on the bins \<open>(-\<infinity>, 1]\<close> and \<open>(1, 2]\<close> for the two kernels of the example tiles.\<close>

definition example_thresholds :: "string \<rightharpoonup> threshold_series" where
  "example_thresholds =
     [''donut'' \<mapsto> [((NInf, Fin 1), Intg 2), ((Fin 1, Fin 2), Intg 0)],
      ''lowleft'' \<mapsto> [((NInf, Fin 1), Intg 1), ((Fin 1, Fin 2), Intg 2)]]"

section \<open>The final filter\<close>

text \<open>
  \<^verbatim>\<open>thresholding_step(centroids)\<close>. The sub-expression
  \<^verbatim>\<open>centroids["obs.raw"] > factor * centroids[name]\<close> occurs six times and is \<open>obs_exceeds\<close>;
  the operands of the mask are evaluated left to right, as Python does, so that the first
  failing access or operation decides the error.
\<close>

definition enrichment_factor_1 :: real where "enrichment_factor_1 = 1.5"
definition enrichment_factor_2 :: real where "enrichment_factor_2 = 1.75"
definition enrichment_factor_3 :: real where "enrichment_factor_3 = 2.0"
definition FDR_orphan_threshold :: real where "FDR_orphan_threshold = 0.02"

definition obs_exceeds :: "dataframe \<Rightarrow> real \<Rightarrow> string \<Rightarrow> error + bool list" where
  "obs_exceeds centroids factor name =
     ebind (getcol centroids ''obs.raw'') (\<lambda>obs.
     ebind (getcol centroids name) (\<lambda>la.
     ebind (scalar_mul factor la) (\<lambda>scaled.
     series_gt obs scaled)))"

definition qval_sum :: "dataframe \<Rightarrow> error + cell list" where
  "qval_sum centroids =
     ebind (getcol centroids ''la_exp.lowleft.qval'') (\<lambda>q1.
     ebind (getcol centroids ''la_exp.donut.qval'') (\<lambda>q2.
     ebind (series_add q1 q2) (\<lambda>s12.
     ebind (getcol centroids ''la_exp.vertical.qval'') (\<lambda>q3.
     ebind (series_add s12 q3) (\<lambda>s123.
     ebind (getcol centroids ''la_exp.horizontal.qval'') (\<lambda>q4.
     series_add s123 q4))))))"

definition enrichment_fdr_comply :: "dataframe \<Rightarrow> error + bool list" where
  "enrichment_fdr_comply centroids =
     ebind (obs_exceeds centroids enrichment_factor_2 ''la_exp.lowleft.value'') (\<lambda>m1.
     ebind (obs_exceeds centroids enrichment_factor_2 ''la_exp.donut.value'') (\<lambda>m2.
     ebind (obs_exceeds centroids enrichment_factor_1 ''la_exp.vertical.value'') (\<lambda>m3.
     ebind (obs_exceeds centroids enrichment_factor_1 ''la_exp.horizontal.value'') (\<lambda>m4.
     ebind (obs_exceeds centroids enrichment_factor_3 ''la_exp.lowleft.value'') (\<lambda>m5.
     ebind (obs_exceeds centroids enrichment_factor_3 ''la_exp.donut.value'') (\<lambda>m6.
     ebind (getcol centroids ''c_size'') (\<lambda>c_size.
     ebind (series_gt_scalar c_size 1) (\<lambda>multi.
     ebind (qval_sum centroids) (\<lambda>qsum.
     ebind (series_le_scalar qsum FDR_orphan_threshold) (\<lambda>orphan_ok.
     Inr (series_and (series_and (series_and (series_and (series_and m1 m2) m3) m4)
            (series_or m5 m6)) (series_or multi orphan_ok))))))))))))"

definition columns_for_output :: "string list" where
  "columns_for_output =
     [''chrom1'', ''start1'', ''end1'', ''chrom2'', ''start2'', ''end2'',
      ''cstart1'', ''cstart2'', ''c_label'', ''c_size'', ''obs.raw'', ''exp.raw'',
      ''la_exp.donut.value'', ''la_exp.vertical.value'', ''la_exp.horizontal.value'',
      ''la_exp.lowleft.value'', ''factor_balance.lowleft.KerObs'',
      ''la_exp.donut.qval'', ''la_exp.vertical.qval'', ''la_exp.horizontal.qval'',
      ''la_exp.lowleft.qval'']"

definition thresholding_step :: "dataframe \<Rightarrow> error + dataframe" where
  "thresholding_step centroids =
     ebind (enrichment_fdr_comply centroids) (\<lambda>msk.
     select_columns (filter_rows centroids msk) columns_for_output)"

text \<open>
  The rule of the final filter for one representative row, as the specification words it; the
  row is given by the numeric value of each of its columns.
\<close>

definition passes_final_filter :: "(string \<Rightarrow> npfloat) \<Rightarrow> bool" where
  "passes_final_filter row =
     (let obs = row ''obs.raw'';
          qsum = fadd (fadd (fadd (row ''la_exp.lowleft.qval'') (row ''la_exp.donut.qval''))
                   (row ''la_exp.vertical.qval'')) (row ''la_exp.horizontal.qval'')
      in fgt obs (fmul (Fin 1.75) (row ''la_exp.donut.value'')) \<and>
         fgt obs (fmul (Fin 1.75) (row ''la_exp.lowleft.value'')) \<and>
         fgt obs (fmul (Fin 1.5) (row ''la_exp.horizontal.value'')) \<and>
         fgt obs (fmul (Fin 1.5) (row ''la_exp.vertical.value'')) \<and>
         (fgt obs (fmul (Fin 2) (row ''la_exp.donut.value'')) \<or>
          fgt obs (fmul (Fin 2) (row ''la_exp.lowleft.value''))) \<and>
         (fgt (row ''c_size'') (Fin 1) \<or> fle qsum (Fin 0.02)))"

definition kept_rows :: "dataframe \<Rightarrow> nat list" where
  "kept_rows df = filter (\<lambda>i. passes_final_filter (cell_value df i)) [0..<nrows df]"

text \<open>The columns \<open>thresholding_step\<close> cannot do without, according to claim C10.\<close>

definition required_columns :: "string list" where
  "required_columns =
     [''la_exp.donut.qval'', ''la_exp.lowleft.qval'', ''la_exp.vertical.qval'',
      ''la_exp.horizontal.qval'', ''factor_balance.lowleft.KerObs'']"

text \<open>
  A table of three centroids: a multi-pixel cluster with large q-values (kept), a singleton
  whose q-values sum to 0.04 (dropped), and a singleton whose q-values sum to 0.004 (kept);
  and the same table without the column \<^verbatim>\<open>factor_balance.lowleft.KerObs\<close>.
\<close>

definition example_centroids :: dataframe where
  "example_centroids =
     [(''chrom1'', [Str ''chr1'', Str ''chr1'', Str ''chr2'']),
      (''start1'', [Intg 10000, Intg 50000, Intg 20000]),
      (''end1'', [Intg 20000, Intg 60000, Intg 30000]),
      (''chrom2'', [Str ''chr1'', Str ''chr1'', Str ''chr2'']),
      (''start2'', [Intg 90000, Intg 150000, Intg 70000]),
      (''end2'', [Intg 100000, Intg 160000, Intg 80000]),
      (''cstart1'', [Num (Fin 12000), Num (Fin 50000), Num (Fin 20000)]),
      (''cstart2'', [Num (Fin 91000), Num (Fin 150000), Num (Fin 70000)]),
      (''c_label'', [Intg 0, Intg 1, Intg 0]),
      (''c_size'', [Intg 3, Intg 1, Intg 1]),
      (''obs.raw'', [Intg 100, Intg 100, Intg 40]),
      (''exp.raw'', [Num (Fin 12), Num (Fin 12), Num (Fin 9)]),
      (''la_exp.donut.value'', [Num (Fin 10), Num (Fin 10), Num (Fin 19)]),
      (''la_exp.vertical.value'', [Num (Fin 10), Num (Fin 10), Num (Fin 20)]),
      (''la_exp.horizontal.value'', [Num (Fin 10), Num (Fin 10), Num (Fin 20)]),
      (''la_exp.lowleft.value'', [Num (Fin 10), Num (Fin 10), Num (Fin 22)]),
      (''factor_balance.lowleft.KerObs'', [Num (Fin 30), Num (Fin 30), Num (Fin 18)]),
      (''la_exp.donut.qval'', [Num (Fin 0.5), Num (Fin 0.01), Num (Fin 0.001)]),
      (''la_exp.vertical.qval'', [Num (Fin 0.5), Num (Fin 0.01), Num (Fin 0.001)]),
      (''la_exp.horizontal.qval'', [Num (Fin 0.5), Num (Fin 0.01), Num (Fin 0.001)]),
      (''la_exp.lowleft.qval'', [Num (Fin 0.5), Num (Fin 0.01), Num (Fin 0.001)])]"

definition example_without_balance :: dataframe where
  "example_without_balance =
     filter (\<lambda>(c, _). c \<noteq> ''factor_balance.lowleft.KerObs'') example_centroids"

section \<open>Properties of the tiling generators\<close>

lemma n_tiles_bounds:
  assumes "0 < b"
  shows "b * (n_tiles s b - 1) < s" and "s \<le> b * n_tiles s b"
proof -
  have e: "s = b * (s div b) + s mod b" by simp
  have m: "0 \<le> s mod b" "s mod b < b" using assms by simp_all
  show "b * (n_tiles s b - 1) < s"
  proof (cases "s mod b = 0")
    case True
    then have "n_tiles s b = s div b" by (simp add: n_tiles_def)
    moreover have "b * (s div b - 1) = b * (s div b) - b" by (simp add: algebra_simps)
    ultimately show ?thesis using e True assms by simp
  next
    case False
    then have "n_tiles s b = s div b + 1" by (simp add: n_tiles_def)
    then have "b * (n_tiles s b - 1) = b * (s div b)" by simp
    moreover have "0 < s mod b" using m False by linarith
    ultimately show ?thesis using e by linarith
  qed
  show "s \<le> b * n_tiles s b"
  proof (cases "s mod b = 0")
    case True
    then have "n_tiles s b = s div b" by (simp add: n_tiles_def)
    then show ?thesis using e True by simp
  next
    case False
    then have "n_tiles s b = s div b + 1" by (simp add: n_tiles_def)
    then have "b * n_tiles s b = b * (s div b) + b" by (simp add: algebra_simps)
    then show ?thesis using e m by linarith
  qed
qed

text \<open>
  When the span is wider than the band, every pixel of the upper triangle within
  \<open>bandwidth\<close> of the diagonal lies in one of the yielded tiles.
\<close>

lemma diagonal_tiling_covers_wide_span:
  assumes bw: "0 < bandwidth" and wide: "bandwidth < stop - start" and ed: "0 \<le> edge"
    and px: "start \<le> i" "i \<le> j" "j < stop" "j - i \<le> bandwidth"
  shows "\<exists>spans. diagonal_matrix_tiling start stop bandwidth edge = Inr spans \<and> covers spans i j"
proof -
  define sz where "sz = stop - start"
  define tiles where "tiles = n_tiles sz bandwidth"
  define q where "q = (i - start) div bandwidth"
  define t where "t = min (q + 1) (tiles - 1)"
  have up: "sz \<le> bandwidth * tiles" and lo: "bandwidth * (tiles - 1) < sz"
    using n_tiles_bounds[OF bw, of sz] by (simp_all add: tiles_def)
  have tiles2: "2 \<le> tiles"
  proof (rule ccontr)
    assume "\<not> 2 \<le> tiles"
    then have "tiles \<le> 1" by simp
    then have "bandwidth * tiles \<le> bandwidth * 1" using bw by (intro mult_left_mono) simp_all
    then show False using up wide by (simp add: sz_def)
  qed
  have q0: "0 \<le> q" using px bw by (simp add: q_def pos_imp_zdiv_nonneg_iff)
  have qlo: "bandwidth * q \<le> i - start" and qhi: "i - start < bandwidth * q + bandwidth"
  proof -
    have e: "i - start = bandwidth * q + (i - start) mod bandwidth" by (simp add: q_def)
    have "0 \<le> (i - start) mod bandwidth" "(i - start) mod bandwidth < bandwidth" using bw by simp_all
    then show "bandwidth * q \<le> i - start" "i - start < bandwidth * q + bandwidth" using e by linarith+
  qed
  have t_rng: "1 \<le> t" "t \<le> tiles - 1" using q0 tiles2 by (simp_all add: t_def)
  have t_le: "t - 1 \<le> q" by (simp add: t_def)
  have "bandwidth * (t - 1) \<le> bandwidth * q" using t_le bw by (intro mult_left_mono) simp_all
  then have left: "max 0 (bandwidth * (t - 1) - edge) + start \<le> i" using qlo ed px by simp
  have right: "j < min sz (bandwidth * (t + 1) + edge) + start"
  proof (cases "q + 1 \<le> tiles - 1")
    case True
    then have "t = q + 1" by (simp add: t_def)
    then have "bandwidth * (t + 1) = bandwidth * q + bandwidth + bandwidth" by (simp add: algebra_simps)
    then show ?thesis using qhi px ed by (simp add: sz_def)
  next
    case False
    then have "t = tiles - 1" by (simp add: t_def)
    then have "t + 1 = tiles" by simp
    then have "bandwidth * (t + 1) = bandwidth * tiles" by (rule arg_cong)
    moreover have "j - start < sz" using px by (simp add: sz_def)
    ultimately have "j - start < min sz (bandwidth * (t + 1) + edge)" using up ed by linarith
    then show ?thesis by linarith
  qed
  have "t \<in> set [1..tiles - 1]" using t_rng by simp
  then have "(max 0 (bandwidth * (t - 1) - edge) + start, min sz (bandwidth * (t + 1) + edge) + start)
      \<in> set (map (\<lambda>t. (max 0 (bandwidth * (t - 1) - edge) + start,
                        min sz (bandwidth * (t + 1) + edge) + start)) [1..tiles - 1])"
    unfolding set_map by (rule imageI)
  then have "covers (map (\<lambda>t. (max 0 (bandwidth * (t - 1) - edge) + start,
                        min sz (bandwidth * (t + 1) + edge) + start)) [1..tiles - 1]) i j"
    unfolding covers_def list_ex_iff using left right by blast
  moreover have "diagonal_matrix_tiling start stop bandwidth edge =
     Inr (map (\<lambda>t. (max 0 (bandwidth * (t - 1) - edge) + start,
                        min sz (bandwidth * (t + 1) + edge) + start)) [1..tiles - 1])"
    using bw by (simp add: diagonal_matrix_tiling_def Let_def sz_def tiles_def)
  ultimately show ?thesis by blast
qed

text \<open>
  C1. The coverage fails for a non-empty span that is not wider than the band:
  \<^verbatim>\<open>range(1, tiles)\<close> is empty when \<open>tiles = 1\<close>, nothing is yielded, and the pixel
  \<open>(0, 0)\<close> of the span \<open>[0, 5)\<close> with \<open>bandwidth = 10\<close> is in no tile.
\<close>

theorem diagonal_tiling_narrow_span_uncovered:
  "map_sum id (\<lambda>spans. covers spans 0 0) (diagonal_matrix_tiling 0 5 10 0) = Inr False"
  by (simp add: diagonal_matrix_tiling_def n_tiles_def covers_def)

lemma axis_span_boundary:
  assumes "axis_span sz step edge True t = (lw, rw)" and "rw \<ge> sz"
  shows "rw = sz \<and> lw = sz - step - edge"
  using assms by (auto simp: axis_span_def Let_def split: if_splits)

text \<open>
  C9 (as amended). With \<open>square = True\<close>, every yielded span whose right end reaches the
  matrix boundary \<open>stop\<close> has side length \<open>step + edge\<close>: its left end is reset to
  \<open>size - step - edge\<close>, so it keeps a core of \<open>step\<close> bins plus the left padding. The side
  is exactly \<open>step\<close> only when \<open>edge = 0\<close>.
\<close>

theorem square_tiling_boundary_side:
  assumes "square_matrix_tiling start stop step edge True = Inr tls"
  shows "boundary_side_is stop (step + edge) tls"
proof -
  have "(if rx = stop then rx - lx = step + edge else True) \<and>
        (if ry = stop then ry - ly = step + edge else True)"
    if mem: "((lx, rx), (ly, ry)) \<in> set tls" for lx rx ly ry
  proof -
    have "\<exists>tx ty. axis_span (stop - start) step edge True tx = (lx - start, rx - start)
              \<and> axis_span (stop - start) step edge True ty = (ly - start, ry - start)"
      using assms mem
      by (fastforce simp: square_matrix_tiling_def Let_def split: if_splits prod.splits)
    then obtain tx ty where
      x: "axis_span (stop - start) step edge True tx = (lx - start, rx - start)"
      and y: "axis_span (stop - start) step edge True ty = (ly - start, ry - start)"
      by blast
    show ?thesis using axis_span_boundary[OF x] axis_span_boundary[OF y] by auto
  qed
  then show ?thesis unfolding boundary_side_is_def list_all_iff by fast
qed

theorem square_tiling_boundary_side_witness:
  "square_matrix_tiling 0 10 4 1 True =
     Inr [((0, 5), (0, 5)), ((0, 5), (3, 9)), ((0, 5), (5, 10)),
          ((3, 9), (0, 5)), ((3, 9), (3, 9)), ((3, 9), (5, 10)),
          ((5, 10), (0, 5)), ((5, 10), (3, 9)), ((5, 10), (5, 10))]
   \<and> boundary_side_is 10 (4 + 1)
        [((0, 5), (0, 5)), ((0, 5), (3, 9)), ((0, 5), (5, 10)),
         ((3, 9), (0, 5)), ((3, 9), (3, 9)), ((3, 9), (5, 10)),
         ((5, 10), (0, 5)), ((5, 10), (3, 9)), ((5, 10), (5, 10))]"
proof -
  have run: "square_matrix_tiling 0 10 4 1 True =
     Inr [((0, 5), (0, 5)), ((0, 5), (3, 9)), ((0, 5), (5, 10)),
          ((3, 9), (0, 5)), ((3, 9), (3, 9)), ((3, 9), (5, 10)),
          ((5, 10), (0, 5)), ((5, 10), (3, 9)), ((5, 10), (5, 10))]"
    by (simp add: square_matrix_tiling_def n_tiles_def axis_span_def upto_rec1 Let_def)
  show ?thesis using run square_tiling_boundary_side[OF run] by simp
qed

text \<open>
  C9 (as stated) fails: for \<open>start = 0\<close>, \<open>stop = 10\<close>, \<open>step = 4\<close>, \<open>edge = 1\<close> the last
  span on each axis is \<open>(5, 10)\<close>, of side 5, not 4.
\<close>

theorem square_tiling_boundary_side_not_step:
  "map_sum id (boundary_side_is 10 4) (square_matrix_tiling 0 10 4 1 True) = Inr False"
  by (simp add: square_matrix_tiling_def n_tiles_def axis_span_def upto_rec1 Let_def
        boundary_side_is_def)

section \<open>Properties of the q-value computation\<close>

lemma assign_at_nth:
  assumes "distinct idxs" and "length idxs = length vals" and "r < length idxs"
    and "\<forall>i\<in>set idxs. i < length target"
  shows "assign_at target idxs vals ! (idxs ! r) = vals ! r"
  using assms unfolding assign_at_def
proof (induction idxs arbitrary: vals target r)
  case Nil
  then show ?case by simp
next
  case (Cons i idxs)
  then obtain v vs where vals: "vals = v # vs" by (cases vals) auto
  have keep: "fold (\<lambda>(i, v) t. t[i := v]) (zip idxs vs) t ! k = t ! k"
    if "k \<notin> set idxs" for t :: "nat list" and k vs
    using that by (induction idxs arbitrary: t vs) (auto simp: zip_Cons1 split: list.splits)
  show ?case
  proof (cases r)
    case 0
    then show ?thesis using Cons.prems vals keep[of i] by simp
  next
    case (Suc r')
    then show ?thesis using Cons.prems vals Cons.IH[of vs r' "target[i := v]"] by simp
  qed
qed

lemma assign_at_length: "length (assign_at target idxs vals) = length target"
  unfolding assign_at_def
  by (induction idxs arbitrary: vals target) (auto simp: zip_Cons1 split: list.splits)

lemma argsort_result_perm:
  assumes "argsort_result ps porder"
  shows "mset porder = mset [0..<length ps]"
    and "length porder = length ps"
    and "distinct porder"
    and "set porder = {0..<length ps}"
proof -
  have "sort porder = [0..<length ps]" using assms by (simp add: argsort_result_def)
  then have "mset (sort porder) = mset [0..<length ps]" by simp
  then show m: "mset porder = mset [0..<length ps]" by (simp only: mset_sort)
  then show "length porder = length ps" by (metis length_upt mset_eq_length minus_nat.diff_0)
  have "distinct [0..<length ps]" by simp
  then show "distinct porder" using m by (metis mset_eq_imp_distinct_iff)
  show "set porder = {0..<length ps}" using m by (metis mset_eq_setD set_upt)
qed

lemma rank_in_nth:
  assumes "distinct porder" and "r < length porder"
  shows "rank_in porder (porder ! r) = r + 1"
proof -
  have "takeWhile (\<lambda>k. k \<noteq> porder ! r) porder = take r porder"
  proof (rule takeWhile_eq_take_P_nth)
    fix i assume "i < r" "i < length porder"
    then show "porder ! i \<noteq> porder ! r" using assms by (simp add: nth_eq_iff_index_eq)
  next
    show "\<not> porder ! r \<noteq> porder ! r" by simp
  qed
  then show ?thesis using assms(2) by (simp add: rank_in_def)
qed

lemma prank_is_rank:
  assumes a: "argsort_result ps porder" and i: "i < length ps"
  shows "assign_at (replicate (length ps) 0) porder [1..<length ps + 1] ! i = rank_in porder i"
    and "porder ! (rank_in porder i - 1) = i"
    and "rank_in porder i - 1 < length ps"
proof -
  let ?n = "length ps"
  note p = argsort_result_perm[OF a]
  have "i \<in> set porder" using i p(4) by simp
  then obtain r where r: "r < ?n" "porder ! r = i"
    using p(2) by (metis in_set_conv_nth)
  have rk: "rank_in porder i = r + 1" using rank_in_nth[of porder r] p r by simp
  have bound: "\<forall>k\<in>set porder. k < length (replicate ?n (0::nat))"
    using p(4) by simp
  have "assign_at (replicate ?n 0) porder [1..<?n + 1] ! (porder ! r) = [1..<?n + 1] ! r"
    using r p bound by (intro assign_at_nth) simp_all
  moreover have "[1..<?n + 1] ! r = 1 + r" using r by (intro nth_upt) simp
  ultimately show "assign_at (replicate ?n 0) porder [1..<?n + 1] ! i = rank_in porder i"
    using r rk by simp
  show "porder ! (rank_in porder i - 1) = i" using rk r by simp
  show "rank_in porder i - 1 < length ps" using rk r by simp
qed

lemma length_filter_upt_card:
  "length (filter P [0..<n]) = card {j. j < n \<and> P j}"
proof -
  have "distinct (filter P [0..<n])" by simp
  then have "length (filter P [0..<n]) = card (set (filter P [0..<n]))"
    by (simp only: distinct_card)
  moreover have "set (filter P [0..<n]) = {j. j < n \<and> P j}" by auto
  ultimately show ?thesis by simp
qed

lemma argsort_result_mono:
  assumes a: "argsort_result ps porder" and st: "s \<le> t" and t: "t < length ps"
  shows "ps ! (porder ! s) \<le> ps ! (porder ! t)"
proof -
  have len: "length porder = length ps" by (rule argsort_result_perm(2)[OF a])
  have srt: "sorted (map (\<lambda>i. ps ! i) porder)" using a by (simp add: argsort_result_def)
  have "map (\<lambda>i. ps ! i) porder ! s \<le> map (\<lambda>i. ps ! i) porder ! t"
    by (rule sorted_nth_mono[OF srt st]) (simp add: len t)
  then show ?thesis using st t len by simp
qed

lemma rank_bounds:
  assumes a: "argsort_result ps porder" and i: "i < length ps"
  shows "count_below ps i < rank_in porder i" and "rank_in porder i \<le> count_upto ps i"
proof -
  let ?n = "length ps"
  let ?f = "\<lambda>s. porder ! s"
  let ?B = "{j. j < ?n \<and> ps ! j < ps ! i}"
  let ?U = "{j. j < ?n \<and> ps ! j \<le> ps ! i}"
  note p = argsort_result_perm[OF a]
  have "i \<in> set porder" using i p(4) by simp
  then obtain r where r: "r < ?n" "porder ! r = i"
    using p(2) by (metis in_set_conv_nth)
  have rk: "rank_in porder i = r + 1" using rank_in_nth[of porder r] p(2,3) r by simp
  have cb: "count_below ps i = card ?B"
    unfolding count_below_def by (rule length_filter_upt_card)
  have cu: "count_upto ps i = card ?U"
    unfolding count_upto_def by (rule length_filter_upt_card)
  have sub1: "?B \<subseteq> ?f ` {0..<r}"
  proof
    fix j assume "j \<in> ?B"
    then have j: "j < ?n" "ps ! j < ps ! i" by simp_all
    then have "j \<in> set porder" using p(4) by simp
    then obtain s where s: "s < ?n" "porder ! s = j" using p(2) by (metis in_set_conv_nth)
    have "s < r"
    proof (rule ccontr)
      assume "\<not> s < r"
      then have "r \<le> s" by simp
      then have "ps ! (porder ! r) \<le> ps ! (porder ! s)"
        by (rule argsort_result_mono[OF a _ s(1)])
      then show False using j(2) s(2) r(2) by simp
    qed
    then have "s \<in> {0..<r}" by simp
    then have "?f s \<in> ?f ` {0..<r}" by (rule imageI)
    then show "j \<in> ?f ` {0..<r}" using s(2) by simp
  qed
  have "card ?B \<le> card (?f ` {0..<r})"
    by (rule card_mono[OF _ sub1]) simp
  also have "\<dots> \<le> card {0..<r}" by (rule card_image_le) simp
  finally have "card ?B \<le> r" by simp
  then show "count_below ps i < rank_in porder i" using cb rk by simp
  have sub2: "?f ` {0..<r + 1} \<subseteq> ?U"
  proof (rule image_subsetI)
    fix s assume "s \<in> {0..<r + 1}"
    then have s: "s \<le> r" by simp
    then have sn: "s < length porder" using r(1) p(2) by simp
    have "porder ! s \<in> set porder" by (rule nth_mem[OF sn])
    then have "porder ! s < ?n" using p(4) by simp
    moreover have "ps ! (porder ! s) \<le> ps ! (porder ! r)"
      by (rule argsort_result_mono[OF a s r(1)])
    ultimately show "porder ! s \<in> ?U" using r(2) by simp
  qed
  have inj: "inj_on ?f {0..<r + 1}"
  proof (rule inj_onI)
    fix x y assume "x \<in> {0..<r + 1}" "y \<in> {0..<r + 1}" "porder ! x = porder ! y"
    then have "x < length porder" "y < length porder" "porder ! x = porder ! y"
      using r(1) p(2) by simp_all
    then show "x = y" using p(3) by (simp add: nth_eq_iff_index_eq)
  qed
  have "card (?f ` {0..<r + 1}) = card {0..<r + 1}" by (rule card_image[OF inj])
  then have c: "card (?f ` {0..<r + 1}) = r + 1" by simp
  have fin: "finite ?U" by simp
  have "card (?f ` {0..<r + 1}) \<le> card ?U" by (rule card_mono[OF fin sub2])
  then show "rank_in porder i \<le> count_upto ps i" using cu rk c by simp
qed

lemma stable_argsort_result: "argsort_result ps (stable_argsort ps)"
proof -
  let ?Z = "zip ps [0..<length ps]"
  let ?L = "sort_key fst ?Z"
  have "mset (stable_argsort ps) = image_mset snd (mset ?L)"
    by (simp only: stable_argsort_def mset_map)
  also have "\<dots> = image_mset snd (mset ?Z)" by (simp only: mset_sort)
  also have "\<dots> = mset (map snd ?Z)" by (simp only: mset_map)
  also have "map snd ?Z = [0..<length ps]" by (rule map_snd_zip) simp
  finally have m: "mset (stable_argsort ps) = mset [0..<length ps]" .
  have "sort (stable_argsort ps) = sort [0..<length ps]"
    using m by (metis properties_for_sort sorted_sort mset_sort)
  moreover have "sort [0..<length ps] = [0..<length ps]" by (simp add: sorted_sort_id)
  ultimately have perm: "sort (stable_argsort ps) = [0..<length ps]" by simp
  have pair: "fst z = ps ! snd z" if "z \<in> set ?L" for z
  proof -
    have "z \<in> set ?Z" using that by simp
    then show ?thesis by (auto simp: in_set_zip)
  qed
  have "map (\<lambda>i. ps ! i) (stable_argsort ps) = map fst ?L"
    unfolding stable_argsort_def using pair by (simp add: comp_def)
  moreover have "sorted (map fst ?L)" by (rule sorted_sort_key)
  ultimately show ?thesis using perm by (simp add: argsort_result_def)
qed

text \<open>Every array has an index list that \<^verbatim>\<open>np.argsort\<close> may return.\<close>

lemma argsort_result_exists: "\<exists>porder. argsort_result ps porder"
  using stable_argsort_result by blast

text \<open>
  C7. For whichever index list \<^verbatim>\<open>np.argsort\<close> returns, \<open>get_qvals\<close> returns an array
  aligned with its input in which the \<open>i\<close>-th entry is \<open>p * N / rank\<close>, the rank being the
  1-based position of the \<open>i\<close>-th p-value in the ascending order: the entry of the order at
  that position is \<open>i\<close>, more than the number of smaller p-values and at most the number of
  p-values that are not larger. On \<open>[0.01, 0.02, 0.03, 0.5]\<close> the result is
  \<open>[0.04, 0.04, 0.04, 0.5]\<close>. Equal p-values receive consecutive ranks in the order in
  which the sort leaves them.
\<close>

theorem get_qvals_rank_formula:
  assumes "argsort_result ps porder"
  shows "length (get_qvals porder ps) = length ps \<and>
   (\<forall>i<length ps.
      get_qvals porder ps ! i = ps ! i * real (length ps) / real (rank_in porder i) \<and>
      porder ! (rank_in porder i - 1) = i \<and>
      count_below ps i < rank_in porder i \<and> rank_in porder i \<le> count_upto ps i) \<and>
   (ps = [0.01, 0.02, 0.03, 0.5] \<longrightarrow> get_qvals porder ps = [0.04, 0.04, 0.04, 0.5])"
proof (intro conjI allI impI)
  show len: "length (get_qvals porder ps) = length ps"
    by (simp add: get_qvals_def Let_def assign_at_length)
  have entry: "get_qvals porder ps ! i = ps ! i * real (length ps) / real (rank_in porder i)"
    if i: "i < length ps" for i
  proof -
    have "get_qvals porder ps ! i = real (length ps) * ps ! i /
      real (assign_at (replicate (length ps) 0) porder [1..<length ps + 1] ! i)"
      using i by (simp add: get_qvals_def Let_def assign_at_length)
    then show ?thesis using prank_is_rank(1)[OF assms i] by (simp add: mult.commute)
  qed
  {
    fix i assume i: "i < length ps"
    show "get_qvals porder ps ! i = ps ! i * real (length ps) / real (rank_in porder i)"
      by (rule entry[OF i])
    show "porder ! (rank_in porder i - 1) = i" by (rule prank_is_rank(2)[OF assms i])
    show "count_below ps i < rank_in porder i" by (rule rank_bounds(1)[OF assms i])
    show "rank_in porder i \<le> count_upto ps i" by (rule rank_bounds(2)[OF assms i])
  }
  assume ps: "ps = [0.01, 0.02, 0.03, 0.5]"
  have rk: "rank_in porder i = i + 1" if i: "i < 4" for i
  proof -
    have "i < length ps" using i ps by simp
    note b = rank_bounds[OF assms this]
    have "i = 0 \<or> i = 1 \<or> i = 2 \<or> i = 3" using i by auto
    then have "count_below ps i = i \<and> count_upto ps i = i + 1"
      unfolding ps count_below_def count_upto_def
      by (elim disjE) (simp_all add: upt_rec)
    then show ?thesis using b by simp
  qed
  have "get_qvals porder ps ! i = [0.04, 0.04, 0.04, 0.5] ! i" if i: "i < 4" for i
  proof -
    have "i < length ps" using i ps by simp
    have "i = 0 \<or> i = 1 \<or> i = 2 \<or> i = 3" using i by auto
    then show ?thesis using entry[OF \<open>i < length ps\<close>] rk[OF i]
      unfolding ps by (elim disjE) simp_all
  qed
  then show "get_qvals porder ps = [0.04, 0.04, 0.04, 0.5]"
    using len ps by (intro nth_equalityI) simp_all
qed

theorem get_qvals_rank_formula_witness:
  "argsort_result [0.25, 0.25, 0.1] [2, 1, 0] \<and> (0::nat) < length [0.25, 0.25, 0.1 :: real] \<and>
   rank_in [2, 1, 0] 0 = 3 \<and>
   get_qvals [2, 1, 0] [0.25, 0.25, 0.1] ! 0 = 0.25 * 3 / 3 \<and>
   get_qvals [2, 1, 0] [0.25, 0.25, 0.1] = [0.25, 0.375, 0.3]"
proof -
  have a: "argsort_result [0.25, 0.25, 0.1] [2, 1, 0]"
    by (simp add: argsort_result_def upt_rec)
  have r: "rank_in [2, 1, 0] 0 = 3" by (simp add: rank_in_def)
  have "get_qvals [2, 1, 0] [0.25, 0.25, 0.1] ! 0 =
          [0.25, 0.25, 0.1] ! 0 * real (length [0.25, 0.25, 0.1 :: real]) /
          real (rank_in [2, 1, 0] 0)"
    using get_qvals_rank_formula[OF a] by simp
  moreover have "get_qvals [2, 1, 0] [0.25, 0.25, 0.1] = [0.25, 0.375, 0.3]"
    by (simp add: get_qvals_def assign_at_def upt_rec)
  ultimately show ?thesis using a r by simp
qed

section \<open>Properties of the data-frame operations\<close>

lemma ebind_Inr_iff: "ebind m f = Inr y \<longleftrightarrow> (\<exists>x. m = Inr x \<and> f x = Inr y)"
  by (cases m) (simp_all add: ebind_def)

lemma ebind_Inl: "m = Inl e \<Longrightarrow> ebind m f = Inl e"
  by (simp add: ebind_def)

lemma emap_Inr:
  assumes "emap f xs = Inr ys"
  shows "length ys = length xs \<and> (\<forall>i<length xs. f (xs ! i) = Inr (ys ! i))"
  using assms
proof (induction xs arbitrary: ys)
  case Nil
  then show ?case by simp
next
  case (Cons x xs)
  from Cons.prems obtain y ys' where y: "f x = Inr y" and r: "emap f xs = Inr ys'" and e: "ys = y # ys'"
    by (auto simp: ebind_Inr_iff)
  from Cons.IH[OF r] have ih: "length ys' = length xs" "\<forall>i<length xs. f (xs ! i) = Inr (ys' ! i)"
    by simp_all
  show ?case
  proof (intro conjI allI impI)
    show "length ys = length (x # xs)" using e ih by simp
    fix i assume "i < length (x # xs)"
    then show "f ((x # xs) ! i) = Inr (ys ! i)" using y ih e by (cases i) simp_all
  qed
qed

lemma getcol_Inr_iff: "getcol df c = Inr xs \<longleftrightarrow> map_of df c = Some xs"
  by (simp add: getcol_def split: option.splits)

lemma wf_column_length:
  assumes "wf_dataframe df" and "map_of df c = Some xs"
  shows "length xs = nrows df"
proof -
  have "(c, xs) \<in> set df" using assms(2) by (rule map_of_SomeD)
  then show ?thesis using assms(1) by (auto simp: wf_dataframe_def list_all_iff)
qed

lemma cell_value_num:
  "map_of df c = Some xs \<Longrightarrow> num (xs ! i) = Inr x \<Longrightarrow> cell_value df i c = x"
  by (simp add: cell_value_def)

lemma scalar_mul_nth:
  assumes "scalar_mul k xs = Inr ys"
  shows "length ys = length xs \<and>
         (\<forall>i<length xs. \<exists>x. num (xs ! i) = Inr x \<and> ys ! i = Num (fmul (Fin k) x))"
proof -
  from emap_Inr[OF assms[unfolded scalar_mul_def]]
  have l: "length ys = length xs"
    and n: "\<forall>i<length xs. ebind (num (xs ! i)) (\<lambda>x. Inr (Num (fmul (Fin k) x))) = Inr (ys ! i)"
    by simp_all
  have "\<exists>x. num (xs ! i) = Inr x \<and> ys ! i = Num (fmul (Fin k) x)" if "i < length xs" for i
    using n that by (fastforce simp: ebind_Inr_iff)
  then show ?thesis using l by blast
qed

lemma series_add_nth:
  assumes "series_add xs ys = Inr zs" and "length xs = length ys"
  shows "length zs = length xs \<and>
         (\<forall>i<length xs. \<exists>x y. num (xs ! i) = Inr x \<and> num (ys ! i) = Inr y \<and> zs ! i = Num (fadd x y))"
proof -
  from emap_Inr[OF assms(1)[unfolded series_add_def]]
  have l: "length zs = length (zip xs ys)"
    and n: "\<forall>i<length (zip xs ys). (case zip xs ys ! i of (a, b) \<Rightarrow>
        ebind (num a) (\<lambda>x. ebind (num b) (\<lambda>y. Inr (Num (fadd x y))))) = Inr (zs ! i)"
    by simp_all
  have "\<exists>x y. num (xs ! i) = Inr x \<and> num (ys ! i) = Inr y \<and> zs ! i = Num (fadd x y)" if "i < length xs" for i
    using n that assms(2) by (fastforce simp: ebind_Inr_iff)
  then show ?thesis using l assms(2) by simp
qed

lemma series_gt_nth:
  assumes "series_gt xs ys = Inr bs" and "length xs = length ys"
  shows "length bs = length xs \<and>
         (\<forall>i<length xs. \<exists>x y. num (xs ! i) = Inr x \<and> num (ys ! i) = Inr y \<and> bs ! i = fgt x y)"
proof -
  from emap_Inr[OF assms(1)[unfolded series_gt_def]]
  have l: "length bs = length (zip xs ys)"
    and n: "\<forall>i<length (zip xs ys). (case zip xs ys ! i of (a, b) \<Rightarrow>
        ebind (num a) (\<lambda>x. ebind (num b) (\<lambda>y. Inr (fgt x y)))) = Inr (bs ! i)"
    by simp_all
  have "\<exists>x y. num (xs ! i) = Inr x \<and> num (ys ! i) = Inr y \<and> bs ! i = fgt x y" if "i < length xs" for i
    using n that assms(2) by (fastforce simp: ebind_Inr_iff)
  then show ?thesis using l assms(2) by simp
qed

lemma series_gt_scalar_nth:
  assumes "series_gt_scalar xs k = Inr bs"
  shows "length bs = length xs \<and> (\<forall>i<length xs. \<exists>x. num (xs ! i) = Inr x \<and> bs ! i = fgt x (Fin k))"
proof -
  from emap_Inr[OF assms[unfolded series_gt_scalar_def]]
  have l: "length bs = length xs"
    and n: "\<forall>i<length xs. ebind (num (xs ! i)) (\<lambda>x. Inr (fgt x (Fin k))) = Inr (bs ! i)"
    by simp_all
  have "\<exists>x. num (xs ! i) = Inr x \<and> bs ! i = fgt x (Fin k)" if "i < length xs" for i
    using n that by (fastforce simp: ebind_Inr_iff)
  then show ?thesis using l by blast
qed

lemma series_le_scalar_nth:
  assumes "series_le_scalar xs k = Inr bs"
  shows "length bs = length xs \<and> (\<forall>i<length xs. \<exists>x. num (xs ! i) = Inr x \<and> bs ! i = fle x (Fin k))"
proof -
  from emap_Inr[OF assms[unfolded series_le_scalar_def]]
  have l: "length bs = length xs"
    and n: "\<forall>i<length xs. ebind (num (xs ! i)) (\<lambda>x. Inr (fle x (Fin k))) = Inr (bs ! i)"
    by simp_all
  have "\<exists>x. num (xs ! i) = Inr x \<and> bs ! i = fle x (Fin k)" if "i < length xs" for i
    using n that by (fastforce simp: ebind_Inr_iff)
  then show ?thesis using l by blast
qed

lemma select_mask_nth_list:
  assumes "length msk = length xs"
  shows "select_mask msk xs = map (\<lambda>i. xs ! i) (filter (\<lambda>i. msk ! i) [0..<length xs])"
  using assms
proof (induction xs arbitrary: msk rule: rev_induct)
  case Nil
  then show ?case by (simp add: select_mask_def)
next
  case (snoc x xs)
  then obtain b bs where msk: "msk = bs @ [b]" and l: "length bs = length xs"
    by (cases msk rule: rev_cases) auto
  have ih: "select_mask bs xs = map (\<lambda>i. xs ! i) (filter (\<lambda>i. bs ! i) [0..<length xs])"
    using snoc.IH l by simp
  have a: "map (\<lambda>i. xs ! i) (filter (\<lambda>i. bs ! i) [0..<length xs])
        = map (\<lambda>i. (xs @ [x]) ! i) (filter (\<lambda>i. (bs @ [b]) ! i) [0..<length xs])"
    using l by (auto simp: nth_append intro!: map_cong filter_cong)
  have "select_mask (bs @ [b]) (xs @ [x]) = select_mask bs xs @ (if b then [x] else [])"
    using l by (simp add: select_mask_def)
  then show ?case using ih a l msk by (simp add: nth_append)
qed


lemma select_columns_Inr:
  assumes "select_columns df names = Inr out"
  shows "(\<forall>c\<in>set names. map_of df c \<noteq> None) \<and> out = map (\<lambda>c. (c, the (map_of df c))) names"
proof -
  have "filter (\<lambda>c. map_of df c = None) names = []"
    using assms by (auto simp: select_columns_def split: list.splits)
  then have "\<forall>c\<in>set names. map_of df c \<noteq> None" by (simp add: filter_empty_conv)
  moreover have "out = map (\<lambda>c. (c, the (map_of df c))) names"
    using assms by (auto simp: select_columns_def split: list.splits)
  ultimately show ?thesis by blast
qed

lemma map_of_filter_rows:
  "map_of (filter_rows df msk) c = map_option (select_mask msk) (map_of df c)"
  by (induction df) (auto simp: filter_rows_def)

lemma emap_Inr_intro:
  assumes "\<forall>x\<in>set xs. \<exists>y. f x = Inr y"
  shows "emap f xs = Inr (map (\<lambda>x. projr (f x)) xs)"
  using assms by (induction xs) (auto simp: ebind_def)

lemma emap_Inr_map:
  assumes "emap f xs = Inr ys"
  shows "ys = map (\<lambda>x. projr (f x)) xs \<and> (\<forall>x\<in>set xs. \<exists>y. f x = Inr y)"
  using assms
proof (induction xs arbitrary: ys)
  case Nil
  then show ?case by simp
next
  case (Cons x xs)
  from Cons.prems obtain y ys' where y: "f x = Inr y" and r: "emap f xs = Inr ys'" and e: "ys = y # ys'"
    by (auto simp: ebind_Inr_iff)
  show ?case using Cons.IH[OF r] y e by simp
qed

section \<open>Properties of the histogram merge\<close>

lemma build_dict_Inr_iff:
  "build_dict f ks d = Inr h \<longleftrightarrow>
     (\<forall>k\<in>set ks. \<exists>v. f k = Inr v) \<and> h = (\<lambda>k. if k \<in> set ks then Some (projr (f k)) else d k)"
proof (induction ks arbitrary: d)
  case Nil
  then show ?case by auto
next
  case (Cons a ks)
  show ?case
  proof (cases "f a")
    case (Inl e)
    then show ?thesis by (auto simp: ebind_def)
  next
    case (Inr v)
    have eq: "(\<lambda>k. if k \<in> set ks then Some (projr (f k)) else (d(a \<mapsto> v)) k)
        = (\<lambda>k. if k \<in> set (a # ks) then Some (projr (f k)) else d k)"
      using Inr by auto
    have step: "build_dict f (a # ks) d = build_dict f ks (d(a \<mapsto> v))"
      using Inr by (simp add: ebind_def)
    have all: "(\<forall>k\<in>set (a # ks). \<exists>v. f k = Inr v) \<longleftrightarrow> (\<forall>k\<in>set ks. \<exists>v. f k = Inr v)"
      using Inr by simp
    show ?thesis unfolding step all eq[symmetric] by (rule Cons.IH)
  qed
qed

lemma fold_max_ge: "x \<in> set xs \<Longrightarrow> x \<le> fold max xs (a::nat)"
proof (induction xs arbitrary: a)
  case Nil
  then show ?case by simp
next
  case (Cons y ys)
  have mono: "a \<le> fold max ys a" for a :: nat
    by (induction ys arbitrary: a) (auto intro: order_trans[OF max.cobounded2])
  show ?case
  proof (cases "x = y")
    case True
    then show ?thesis using mono[of "max y a"] by simp
  next
    case False
    then show ?thesis using Cons by simp
  qed
qed

lemma frame_of_columns_wf:
  assumes "map fst cols = [0..<m]"
  shows "wf_frame m (frame_of_columns cols)"
proof -
  define n where "n = fold max (map (\<lambda>(_, h). length h) cols) 0"
  have fr: "frame_of_columns cols = map (\<lambda>(lbin, h). (lbin, h @ replicate (n - length h) 0)) cols"
    by (simp add: frame_of_columns_def n_def)
  have le: "length h \<le> n" if "(b, h) \<in> set cols" for b h
  proof -
    have "length h \<in> set (map (\<lambda>(_, h). length h) cols)" using that by force
    then show ?thesis unfolding n_def by (rule fold_max_ge)
  qed
  have len: "length (snd c) = n" if "c \<in> set (frame_of_columns cols)" for c
    using that le unfolding fr by auto
  have labels: "map fst (frame_of_columns cols) = [0..<m]"
    unfolding fr using assms by (simp add: case_prod_unfold comp_def)
  have rows: "frame_rows (frame_of_columns cols) = n" if "frame_of_columns cols \<noteq> []"
  proof -
    from that obtain c cs where c: "frame_of_columns cols = c # cs" by (cases "frame_of_columns cols") auto
    then have "length (snd c) = n" using len[of c] by simp
    then show ?thesis using c by (simp add: frame_rows_def case_prod_unfold)
  qed
  show ?thesis unfolding wf_frame_def list_all_iff using labels len rows by fastforce
qed

lemma obs_hist_column_label: "obs_hist_column df lbins b = Inr c \<Longrightarrow> fst c = b"
  by (auto simp: obs_hist_column_def ebind_Inr_iff)

lemma kernel_histogram_wf:
  assumes "kernel_histogram df ledges k = Inr f"
  shows "wf_frame (length ledges - 1) f"
proof -
  from assms obtain lbins cols where
    c: "emap (obs_hist_column df lbins) [0..<length ledges - 1] = Inr cols"
    and f: "f = frame_of_columns cols"
    by (auto simp: kernel_histogram_def ebind_Inr_iff)
  from emap_Inr[OF c] have l: "length cols = length [0..<length ledges - 1]"
    and n: "\<forall>i<length [0..<length ledges - 1]. obs_hist_column df lbins ([0..<length ledges - 1] ! i) = Inr (cols ! i)"
    by simp_all
  have "map fst cols = [0..<length ledges - 1]"
  proof (rule nth_equalityI)
    show "length (map fst cols) = length [0..<length ledges - 1]" using l by simp
    fix i assume "i < length (map fst cols)"
    then have i: "i < length [0..<length ledges - 1]" using l by simp
    then have "fst (cols ! i) = [0..<length ledges - 1] ! i"
      using n obs_hist_column_label by blast
    then show "map fst cols ! i = [0..<length ledges - 1] ! i" using i l by simp
  qed
  then show ?thesis unfolding f by (rule frame_of_columns_wf)
qed

lemma histogram_scored_pixels_wf:
  assumes "histogram_scored_pixels df ks ledges = Inr h"
  shows "wf_hists ks (length ledges - 1) h"
proof -
  from assms have ok: "\<forall>k\<in>set ks. \<exists>v. kernel_histogram df ledges k = Inr v"
    and h: "h = (\<lambda>k. if k \<in> set ks then Some (projr (kernel_histogram df ledges k)) else None)"
    by (simp_all add: histogram_scored_pixels_def build_dict_Inr_iff)
  have "dom h = set ks" unfolding h by (auto split: if_splits)
  moreover have "wf_frame (length ledges - 1) (projr (kernel_histogram df ledges k))" if "k \<in> set ks" for k
  proof -
    from ok that obtain v where v: "kernel_histogram df ledges k = Inr v" by blast
    then show ?thesis using kernel_histogram_wf[OF v] by simp
  qed
  ultimately show ?thesis unfolding wf_hists_def list_all_iff h by simp
qed


lemma padd_length: "length (padd u v) = max (length u) (length v)"
  by (simp add: padd_def)

lemma padd_nth:
  "r < max (length u) (length v) \<Longrightarrow>
   padd u v ! r = (if r < length u then u ! r else 0) + (if r < length v then v ! r else 0)"
  by (simp add: padd_def)

lemma padd_commute: "padd u v = padd v u"
  by (rule nth_equalityI) (auto simp: padd_length padd_nth max.commute)

lemma padd_assoc: "padd (padd u v) w = padd u (padd v w)"
proof (rule nth_equalityI)
  show "length (padd (padd u v) w) = length (padd u (padd v w))"
    by (simp add: padd_length max.assoc)
  fix r assume "r < length (padd (padd u v) w)"
  then have r: "r < max (max (length u) (length v)) (length w)" by (simp add: padd_length)
  then have r': "r < max (length u) (max (length v) (length w))" by (simp add: max.assoc)
  show "padd (padd u v) w ! r = padd u (padd v w) ! r"
    using r r' by (auto simp: padd_nth padd_length)
qed

lemma padd_Nil: "padd [] v = v"
  by (rule nth_equalityI) (auto simp: padd_length padd_nth)

lemma map_of_tabulate:
  "map_of (map (\<lambda>b. (b, g b)) [0..<m]) b = (if b < m then Some (g b) else None)"
proof -
  have "map_of (map (\<lambda>b. (b, g b)) xs) b = (if b \<in> set xs then Some (g b) else None)" for xs :: "nat list"
    by (induction xs) auto
  then show ?thesis by simp
qed

lemma wf_frame_tabulate:
  assumes "wf_frame m x"
  shows "x = map (\<lambda>b. (b, the (map_of x b))) [0..<m]"
proof -
  have labels: "map fst x = [0..<m]" using assms by (simp add: wf_frame_def)
  then have len: "length x = m" by (metis length_map length_upt minus_nat.diff_0)
  have dist: "distinct (map fst x)" using labels by simp
  show ?thesis
  proof (rule nth_equalityI)
    show "length x = length (map (\<lambda>b. (b, the (map_of x b))) [0..<m])" using len by simp
    fix i assume i: "i < length x"
    have "fst (x ! i) = i" using labels i len by (metis add_0 nth_map nth_upt)
    moreover have "x ! i \<in> set x" using i by simp
    ultimately have "(i, snd (x ! i)) \<in> set x" by (metis prod.collapse)
    then have "map_of x i = Some (snd (x ! i))" using dist by simp
    then show "x ! i = map (\<lambda>b. (b, the (map_of x b))) [0..<m] ! i"
      using i len \<open>fst (x ! i) = i\<close> by (simp add: prod_eq_iff)
  qed
qed

lemma wf_frame_column:
  assumes "wf_frame m x" and "b < m"
  shows "\<exists>u. map_of x b = Some u \<and> length u = frame_rows x"
proof -
  define u where "u = the (map_of x b)"
  have x: "x = map (\<lambda>b. (b, the (map_of x b))) [0..<m]" using assms(1) by (rule wf_frame_tabulate)
  have "map_of x b = map_of (map (\<lambda>b. (b, the (map_of x b))) [0..<m]) b"
    by (rule arg_cong[OF x, of "\<lambda>z. map_of z b"])
  also have "\<dots> = Some (the (map_of x b))"
    using assms(2) by (simp only: map_of_tabulate if_True)
  finally have s: "map_of x b = Some u" unfolding u_def .
  then have mem: "(b, u) \<in> set x" by (rule map_of_SomeD)
  have "\<forall>c\<in>set x. length (snd c) = frame_rows x"
    using assms(1) unfolding wf_frame_def list_all_iff by (simp add: case_prod_unfold)
  then have "length (snd (b, u)) = frame_rows x" using mem by (rule bspec)
  then have "length u = frame_rows x" by simp
  then show ?thesis using s by (intro exI conjI)
qed

lemma wf_frame_tabulated:
  assumes "\<And>b. b < m \<Longrightarrow> length (g b) = n"
  shows "wf_frame m (map (\<lambda>b. (b, g b)) [0..<m])"
proof -
  have labels: "map fst (map (\<lambda>b. (b, g b)) [0..<m]) = [0..<m]"
    by (simp add: comp_def)
  have rows: "frame_rows (map (\<lambda>b. (b, g b)) [0..<m]) = n" if "0 < m"
  proof -
    have "[0..<m] = 0 # [1..<m]" using that by (simp add: upt_rec)
    then show ?thesis using assms[of 0] that by (simp add: frame_rows_def)
  qed
  show ?thesis unfolding wf_frame_def list_all_iff using labels rows assms by fastforce
qed

lemma frame_plus_tabulate:
  assumes "wf_frame m x"
  shows "frame_plus x y = map (\<lambda>b. (b, padd (the (map_of x b)) (the (map_of y b)))) [0..<m]"
proof -
  have "frame_plus x y = map (\<lambda>(lbin, u). (lbin, padd u (the (map_of y lbin))))
          (map (\<lambda>b. (b, the (map_of x b))) [0..<m])"
    unfolding frame_plus_def using wf_frame_tabulate[OF assms] by simp
  then show ?thesis by (simp add: comp_def)
qed

lemma frame_add_wf:
  assumes x: "wf_frame m x" and y: "wf_frame m y"
  shows "frame_add x y = Inr (frame_plus x y)" and "wf_frame m (frame_plus x y)"
proof -
  define n where "n = max (frame_rows x) (frame_rows y)"
  have lx: "map fst x = [0..<m]" and ly: "map fst y = [0..<m]"
    using x y by (simp_all add: wf_frame_def)
  have col: "emap (\<lambda>r. add_cells (frame_cell x b r) (frame_cell y b r)) [0..<n]
           = Inr (padd (the (map_of x b)) (the (map_of y b)))" if b: "b < m" for b
  proof -
    from wf_frame_column[OF x b] obtain u where u: "map_of x b = Some u" "length u = frame_rows x" by blast
    from wf_frame_column[OF y b] obtain v where v: "map_of y b = Some v" "length v = frame_rows y" by blast
    have cell: "add_cells (frame_cell x b r) (frame_cell y b r)
        = Inr ((if r < length u then u ! r else 0) + (if r < length v then v ! r else 0))"
      if "r < n" for r
      using that u v by (auto simp: add_cells_def frame_cell_def n_def)
    then have "\<forall>r\<in>set [0..<n]. \<exists>c. add_cells (frame_cell x b r) (frame_cell y b r) = Inr c"
      by simp
    from emap_Inr_intro[OF this]
    have "emap (\<lambda>r. add_cells (frame_cell x b r) (frame_cell y b r)) [0..<n]
        = Inr (map (\<lambda>r. projr (add_cells (frame_cell x b r) (frame_cell y b r))) [0..<n])" .
    moreover have "map (\<lambda>r. projr (add_cells (frame_cell x b r) (frame_cell y b r))) [0..<n] = padd u v"
      unfolding padd_def using cell u v by (simp add: n_def)
    ultimately show ?thesis using u v by simp
  qed
  have "\<forall>b\<in>set [0..<m]. \<exists>c. ebind (emap (\<lambda>r. add_cells (frame_cell x b r) (frame_cell y b r)) [0..<n])
             (\<lambda>h. Inr (b, h)) = Inr c"
    using col by (simp add: ebind_def)
  from emap_Inr_intro[OF this]
  have "frame_add x y = Inr (map (\<lambda>b. projr (ebind (emap (\<lambda>r. add_cells (frame_cell x b r) (frame_cell y b r)) [0..<n])
             (\<lambda>h. Inr (b, h)))) [0..<m])"
    unfolding frame_add_def Let_def n_def[symmetric] using lx ly by simp
  moreover have "map (\<lambda>b. projr (ebind (emap (\<lambda>r. add_cells (frame_cell x b r) (frame_cell y b r)) [0..<n])
             (\<lambda>h. Inr (b, h)))) [0..<m]
        = map (\<lambda>b. (b, padd (the (map_of x b)) (the (map_of y b)))) [0..<m]"
    using col by (simp add: ebind_def)
  ultimately show "frame_add x y = Inr (frame_plus x y)"
    using frame_plus_tabulate[OF x, of y] by simp
  have "length (padd (the (map_of x b)) (the (map_of y b))) = n" if "b < m" for b
    using wf_frame_column[OF x that] wf_frame_column[OF y that] by (auto simp: padd_length n_def)
  then have "wf_frame m (map (\<lambda>b. (b, padd (the (map_of x b)) (the (map_of y b)))) [0..<m])"
    by (rule wf_frame_tabulated)
  then show "wf_frame m (frame_plus x y)" using frame_plus_tabulate[OF x, of y] by simp
qed

lemma frame_plus_commute:
  assumes "wf_frame m x" and "wf_frame m y"
  shows "frame_plus x y = frame_plus y x"
  using frame_plus_tabulate[OF assms(1), of y] frame_plus_tabulate[OF assms(2), of x]
  by (simp add: padd_commute)

lemma frame_plus_assoc:
  assumes x: "wf_frame m x" and y: "wf_frame m y" and z: "wf_frame m z"
  shows "frame_plus (frame_plus x y) z = frame_plus x (frame_plus y z)"
proof -
  have xy: "wf_frame m (frame_plus x y)" and yz: "wf_frame m (frame_plus y z)"
    using frame_add_wf(2) x y z by blast+
  have cxy: "the (map_of (frame_plus x y) b) = padd (the (map_of x b)) (the (map_of y b))" if "b < m" for b
    using that frame_plus_tabulate[OF x, of y] by (simp add: map_of_tabulate)
  have cyz: "the (map_of (frame_plus y z) b) = padd (the (map_of y b)) (the (map_of z b))" if "b < m" for b
    using that frame_plus_tabulate[OF y, of z] by (simp add: map_of_tabulate)
  show ?thesis
    unfolding frame_plus_tabulate[OF xy, of z] frame_plus_tabulate[OF x, of "frame_plus y z"]
    using cxy cyz by (simp add: padd_assoc)
qed

lemma wf_hists_frame:
  assumes "wf_hists ks m h" and "k \<in> set ks"
  shows "\<exists>f. h k = Some f \<and> wf_frame m f"
  using assms by (auto simp: wf_hists_def list_all_iff split: option.splits)

lemma wf_hists_outside:
  assumes "wf_hists ks m h" and "k \<notin> set ks"
  shows "h k = None"
  using assms by (auto simp: wf_hists_def)

lemma hists_plus_wf:
  assumes x: "wf_hists ks m hx" and y: "wf_hists ks m hy"
  shows "wf_hists ks m (hists_plus ks hx hy)"
proof -
  have "dom (hists_plus ks hx hy) = set ks" by (auto simp: hists_plus_def split: if_splits)
  moreover have "wf_frame m (frame_plus (the (hx k)) (the (hy k)))" if "k \<in> set ks" for k
  proof -
    from wf_hists_frame[OF x that] obtain fx where fx: "hx k = Some fx" "wf_frame m fx" by blast
    from wf_hists_frame[OF y that] obtain fy where fy: "hy k = Some fy" "wf_frame m fy" by blast
    show ?thesis using frame_add_wf(2)[OF fx(2) fy(2)] fx(1) fy(1) by simp
  qed
  ultimately show ?thesis unfolding wf_hists_def list_all_iff by (simp add: hists_plus_def)
qed

lemma sum_hists_wf:
  assumes x: "wf_hists ks m hx" and y: "wf_hists ks m hy"
  shows "sum_hists ks hx hy = Inr (hists_plus ks hx hy)"
proof -
  let ?f = "\<lambda>k. case hx k of None \<Rightarrow> Inl (KeyError [k])
             | Some fx \<Rightarrow> (case hy k of None \<Rightarrow> Inl (KeyError [k]) | Some fy \<Rightarrow> frame_add fx fy)"
  have val: "?f k = Inr (frame_plus (the (hx k)) (the (hy k)))" if "k \<in> set ks" for k
  proof -
    from wf_hists_frame[OF x that] obtain fx where fx: "hx k = Some fx" "wf_frame m fx" by blast
    from wf_hists_frame[OF y that] obtain fy where fy: "hy k = Some fy" "wf_frame m fy" by blast
    show ?thesis using frame_add_wf(1)[OF fx(2) fy(2)] fx(1) fy(1) by simp
  qed
  have "(\<forall>k\<in>set ks. \<exists>v. ?f k = Inr v)" using val by blast
  moreover have "hists_plus ks hx hy = (\<lambda>k. if k \<in> set ks then Some (projr (?f k)) else Map.empty k)"
    using val by (auto simp: hists_plus_def)
  ultimately show ?thesis unfolding sum_hists_def build_dict_Inr_iff by blast
qed

lemma hists_plus_commute:
  assumes x: "wf_hists ks m hx" and y: "wf_hists ks m hy"
  shows "hists_plus ks hx hy = hists_plus ks hy hx"
proof (rule ext)
  fix k
  show "hists_plus ks hx hy k = hists_plus ks hy hx k"
  proof (cases "k \<in> set ks")
    case True
    from wf_hists_frame[OF x True] obtain fx where fx: "hx k = Some fx" "wf_frame m fx" by blast
    from wf_hists_frame[OF y True] obtain fy where fy: "hy k = Some fy" "wf_frame m fy" by blast
    show ?thesis using True fx fy frame_plus_commute[OF fx(2) fy(2)] by (simp add: hists_plus_def)
  next
    case False
    then show ?thesis by (simp add: hists_plus_def)
  qed
qed

lemma hists_plus_assoc:
  assumes x: "wf_hists ks m hx" and y: "wf_hists ks m hy" and z: "wf_hists ks m hz"
  shows "hists_plus ks (hists_plus ks hx hy) hz = hists_plus ks hx (hists_plus ks hy hz)"
proof (rule ext)
  fix k
  show "hists_plus ks (hists_plus ks hx hy) hz k = hists_plus ks hx (hists_plus ks hy hz) k"
  proof (cases "k \<in> set ks")
    case True
    from wf_hists_frame[OF x True] obtain fx where fx: "hx k = Some fx" "wf_frame m fx" by blast
    from wf_hists_frame[OF y True] obtain fy where fy: "hy k = Some fy" "wf_frame m fy" by blast
    from wf_hists_frame[OF z True] obtain fz where fz: "hz k = Some fz" "wf_frame m fz" by blast
    show ?thesis
      using True fx fy fz frame_plus_assoc[OF fx(2) fy(2) fz(2)] by (simp add: hists_plus_def)
  next
    case False
    then show ?thesis by (simp add: hists_plus_def)
  qed
qed

lemma foldl_AC_permute:
  fixes plus :: "'a \<Rightarrow> 'a \<Rightarrow> 'a"
  assumes closed: "\<And>a b. a \<in> A \<Longrightarrow> b \<in> A \<Longrightarrow> plus a b \<in> A"
    and comm: "\<And>a b. a \<in> A \<Longrightarrow> b \<in> A \<Longrightarrow> plus a b = plus b a"
    and assoc: "\<And>a b c. a \<in> A \<Longrightarrow> b \<in> A \<Longrightarrow> c \<in> A \<Longrightarrow> plus (plus a b) c = plus a (plus b c)"
    and perm: "mset (x # xs) = mset (y # ys)"
    and sub: "set (x # xs) \<subseteq> A"
  shows "foldl plus x xs = foldl plus y ys"
proof -
  let ?g = "\<lambda>a z. plus z a"
  have sub': "set (y # ys) \<subseteq> A" using perm sub by (metis mset_eq_setD)
  have lc: "?g a (?g b z) = ?g b (?g a z)" if "a \<in> A" "b \<in> A" "z \<in> A" for a b z
  proof -
    have "plus (plus z b) a = plus z (plus b a)" using that by (simp add: assoc)
    also have "\<dots> = plus z (plus a b)" using that by (simp add: comm)
    also have "\<dots> = plus (plus z a) b" using that by (simp add: assoc)
    finally show ?thesis .
  qed
  have permute: "fold ?g us z = fold ?g vs z"
    if "mset us = mset vs" "set us \<subseteq> A" "z \<in> A" for us vs z
  proof (rule fold_permuted_eq[where P = "\<lambda>z. z \<in> A"])
    show "mset us = mset vs" by (fact that(1))
    show "z \<in> A" by (fact that(3))
    show "plus z' a \<in> A" if "a \<in> set us" "z' \<in> A" for a z'
      using that \<open>set us \<subseteq> A\<close> closed by blast
    show "plus (plus z' b) a = plus (plus z' a) b" if "a \<in> set us" "b \<in> set us" "z' \<in> A" for a b z'
      using lc[of a b z'] that \<open>set us \<subseteq> A\<close> by blast
  qed
  show ?thesis
  proof (cases "x = y")
    case True
    then have "mset xs = mset ys" using perm by simp
    then have "fold ?g xs x = fold ?g ys x" using sub by (intro permute) simp_all
    then show ?thesis using True by (simp add: foldl_conv_fold)
  next
    case False
    define zs where "zs = remove1 y xs"
    have yin: "y \<in> set xs" using perm False by (metis list.set_intros(1) mset_eq_setD set_ConsD)
    have xs: "mset xs = mset (y # zs)" using yin by (simp add: zs_def)
    have "add_mset x (add_mset y (mset zs)) = add_mset y (mset ys)" using perm xs by simp
    then have ys: "mset ys = mset (x # zs)" by (simp add: add_mset_commute)
    have zsA: "set zs \<subseteq> A" using sub by (auto simp: zs_def dest: notin_set_remove1)
    have xA: "x \<in> A" and yA: "y \<in> A" using sub sub' by simp_all
    have "fold ?g xs x = fold ?g (y # zs) x" using xs sub xA by (intro permute) simp_all
    also have "\<dots> = fold ?g zs (plus x y)" by simp
    also have "\<dots> = fold ?g zs (plus y x)" using comm[OF xA yA] by simp
    also have "\<dots> = fold ?g (x # zs) y" by simp
    also have "\<dots> = fold ?g ys y" using ys sub' yA by (intro permute[symmetric]) simp_all
    finally show ?thesis by (simp add: foldl_conv_fold)
  qed
qed

lemma reduce_from_wf:
  assumes acc: "wf_hists ks m acc"
    and jobs: "\<forall>t\<in>set ts. \<exists>h. job t = Inr h \<and> wf_hists ks m h"
  shows "reduce_from (sum_hists ks) job acc ts
           = Inr (foldl (hists_plus ks) acc (map (\<lambda>t. projr (job t)) ts))"
  using assms
proof (induction ts arbitrary: acc)
  case Nil
  then show ?case by simp
next
  case (Cons t ts)
  from Cons.prems(2) obtain h where h: "job t = Inr h" "wf_hists ks m h" by auto
  have s: "sum_hists ks acc h = Inr (hists_plus ks acc h)"
    using Cons.prems(1) h(2) by (rule sum_hists_wf)
  have w: "wf_hists ks m (hists_plus ks acc h)" using Cons.prems(1) h(2) by (rule hists_plus_wf)
  have "reduce_from (sum_hists ks) job (hists_plus ks acc h) ts
      = Inr (foldl (hists_plus ks) (hists_plus ks acc h) (map (\<lambda>t. projr (job t)) ts))"
    using Cons.prems(2) by (intro Cons.IH[OF w]) simp
  then show ?case using h s by (simp add: ebind_def)
qed

lemma reduce_map_wf:
  assumes jobs: "\<forall>t\<in>set (t # ts). \<exists>h. job t = Inr h \<and> wf_hists ks m h"
  shows "reduce_map (sum_hists ks) job (t # ts)
           = Inr (foldl (hists_plus ks) (projr (job t)) (map (\<lambda>t. projr (job t)) ts))"
proof -
  from jobs obtain h where h: "job t = Inr h" "wf_hists ks m h" by auto
  have jobs': "\<forall>t\<in>set ts. \<exists>h. job t = Inr h \<and> wf_hists ks m h" using jobs by simp
  have "reduce_from (sum_hists ks) job h ts
      = Inr (foldl (hists_plus ks) h (map (\<lambda>t. projr (job t)) ts))"
    by (rule reduce_from_wf[OF h(2) jobs'])
  then show ?thesis using h by (simp add: ebind_def)
qed


lemma foldl_hists_plus_wf:
  assumes "wf_hists ks m acc" and "\<forall>h\<in>set hs. wf_hists ks m h"
  shows "wf_hists ks m (foldl (hists_plus ks) acc hs)"
  using assms by (induction hs arbitrary: acc) (simp_all add: hists_plus_wf)

lemma reduce_from_jobs:
  assumes "reduce_from f job acc ts = Inr r"
  shows "\<forall>t\<in>set ts. \<exists>h. job t = Inr h"
  using assms
proof (induction ts arbitrary: acc)
  case Nil
  then show ?case by simp
next
  case (Cons t ts)
  from Cons.prems obtain h acc' where "job t = Inr h" "reduce_from f job acc' ts = Inr r"
    by (auto simp: ebind_Inr_iff)
  then show ?case using Cons.IH by auto
qed

lemma merge_tile_histograms_Inr:
  assumes "merge_tile_histograms tiles ks ledges = Inr fh"
  shows "tiles \<noteq> [] \<and> (\<forall>t\<in>set tiles. \<exists>h. histogram_scored_pixels t ks ledges = Inr h)"
proof (cases tiles)
  case Nil
  then show ?thesis using assms by (simp add: merge_tile_histograms_def)
next
  case (Cons t ts)
  from assms obtain h where h: "histogram_scored_pixels t ks ledges = Inr h"
    and r: "reduce_from (sum_hists ks) (\<lambda>d. histogram_scored_pixels d ks ledges) h ts = Inr fh"
    unfolding merge_tile_histograms_def Cons by (auto simp: ebind_Inr_iff)
  show ?thesis using h reduce_from_jobs[OF r] Cons by simp
qed

lemma merge_tile_histograms_value:
  assumes ok: "\<forall>t\<in>set (t # ts). \<exists>h. histogram_scored_pixels t ks ledges = Inr h"
  shows "merge_tile_histograms (t # ts) ks ledges
           = Inr (foldl (hists_plus ks) (projr (histogram_scored_pixels t ks ledges))
                   (map (\<lambda>t. projr (histogram_scored_pixels t ks ledges)) ts))"
    and "wf_hists ks (length ledges - 1)
           (foldl (hists_plus ks) (projr (histogram_scored_pixels t ks ledges))
                   (map (\<lambda>t. projr (histogram_scored_pixels t ks ledges)) ts))"
proof -
  have jobs: "\<forall>u\<in>set (t # ts). \<exists>h. histogram_scored_pixels u ks ledges = Inr h
                \<and> wf_hists ks (length ledges - 1) h"
    using ok histogram_scored_pixels_wf by blast
  show "merge_tile_histograms (t # ts) ks ledges
           = Inr (foldl (hists_plus ks) (projr (histogram_scored_pixels t ks ledges))
                   (map (\<lambda>t. projr (histogram_scored_pixels t ks ledges)) ts))"
    unfolding merge_tile_histograms_def by (rule reduce_map_wf[OF jobs])
  have wfp: "wf_hists ks (length ledges - 1) (projr (histogram_scored_pixels u ks ledges))"
    if "u \<in> set (t # ts)" for u
    using jobs that by fastforce
  show "wf_hists ks (length ledges - 1)
           (foldl (hists_plus ks) (projr (histogram_scored_pixels t ks ledges))
                   (map (\<lambda>t. projr (histogram_scored_pixels t ks ledges)) ts))"
    using wfp by (intro foldl_hists_plus_wf) auto
qed

text \<open>
  C4. The merge of the per-tile histograms does not depend on the order of the tiles: when
  every tile of a non-empty list is histogrammed without error, the reduction with
  \<open>sum_hists\<close> returns a histogram, it returns the same one for every permutation of the
  list, and \<open>sum_hists\<close> is commutative and associative on the histograms of the tiles.
\<close>

theorem histogram_merge_order_independent:
  assumes ok: "\<forall>t\<in>set tiles. \<exists>h. histogram_scored_pixels t kernels ledges = Inr h"
    and ne: "tiles \<noteq> []"
    and perm: "mset tiles' = mset tiles"
  shows "(\<exists>h. merge_tile_histograms tiles kernels ledges = Inr h) \<and>
         merge_tile_histograms tiles' kernels ledges = merge_tile_histograms tiles kernels ledges \<and>
         (\<forall>x\<in>set tiles. \<forall>y\<in>set tiles. \<forall>z\<in>set tiles.
            let hx = projr (histogram_scored_pixels x kernels ledges);
                hy = projr (histogram_scored_pixels y kernels ledges);
                hz = projr (histogram_scored_pixels z kernels ledges)
            in sum_hists kernels hx hy = sum_hists kernels hy hx \<and>
               ebind (sum_hists kernels hx hy) (\<lambda>h. sum_hists kernels h hz)
                 = ebind (sum_hists kernels hy hz) (\<lambda>h. sum_hists kernels hx h))"
proof -
  let ?m = "length ledges - 1"
  let ?pj = "\<lambda>t. projr (histogram_scored_pixels t kernels ledges)"
  let ?A = "{h. wf_hists kernels ?m h}"
  have wfp: "wf_hists kernels ?m (?pj u)" if "u \<in> set tiles" for u
  proof -
    from ok that obtain h where h: "histogram_scored_pixels u kernels ledges = Inr h" by blast
    then show ?thesis using histogram_scored_pixels_wf[OF h] by simp
  qed
  from ne obtain a as where tiles: "tiles = a # as" by (cases tiles) auto
  have ne': "tiles' \<noteq> []" using perm ne by auto
  then obtain b bs where tiles': "tiles' = b # bs" by (cases tiles') auto
  have set_eq: "set tiles' = set tiles" using perm by (rule mset_eq_setD)
  have ok': "\<forall>t\<in>set (b # bs). \<exists>h. histogram_scored_pixels t kernels ledges = Inr h"
    using ok set_eq tiles' by simp
  have va: "merge_tile_histograms tiles kernels ledges
          = Inr (foldl (hists_plus kernels) (?pj a) (map ?pj as))"
    unfolding tiles using ok tiles by (intro merge_tile_histograms_value(1)) simp
  have vb: "merge_tile_histograms tiles' kernels ledges
          = Inr (foldl (hists_plus kernels) (?pj b) (map ?pj bs))"
    unfolding tiles' using ok' by (intro merge_tile_histograms_value(1))
  have "mset (map ?pj tiles') = mset (map ?pj tiles)" using perm by simp
  then have pm: "mset (?pj b # map ?pj bs) = mset (?pj a # map ?pj as)"
    by (simp add: tiles tiles')
  have sub: "set (?pj b # map ?pj bs) \<subseteq> ?A"
    using wfp set_eq tiles' by auto
  have "foldl (hists_plus kernels) (?pj b) (map ?pj bs) = foldl (hists_plus kernels) (?pj a) (map ?pj as)"
  proof (rule foldl_AC_permute[where A = ?A, OF _ _ _ pm sub])
    show "hists_plus kernels u v \<in> ?A" if "u \<in> ?A" "v \<in> ?A" for u v
      using that by (simp add: hists_plus_wf)
    show "hists_plus kernels u v = hists_plus kernels v u" if "u \<in> ?A" "v \<in> ?A" for u v
      using that hists_plus_commute by simp
    show "hists_plus kernels (hists_plus kernels u v) w = hists_plus kernels u (hists_plus kernels v w)"
      if "u \<in> ?A" "v \<in> ?A" "w \<in> ?A" for u v w
      using that hists_plus_assoc by simp
  qed
  then have same: "merge_tile_histograms tiles' kernels ledges = merge_tile_histograms tiles kernels ledges"
    using va vb by simp
  have ac: "sum_hists kernels (?pj x) (?pj y) = sum_hists kernels (?pj y) (?pj x) \<and>
            ebind (sum_hists kernels (?pj x) (?pj y)) (\<lambda>h. sum_hists kernels h (?pj z))
              = ebind (sum_hists kernels (?pj y) (?pj z)) (\<lambda>h. sum_hists kernels (?pj x) h)"
    if "x \<in> set tiles" "y \<in> set tiles" "z \<in> set tiles" for x y z
  proof -
    note wx = wfp[OF that(1)] and wy = wfp[OF that(2)] and wz = wfp[OF that(3)]
    have "sum_hists kernels (?pj x) (?pj y) = sum_hists kernels (?pj y) (?pj x)"
      using sum_hists_wf[OF wx wy] sum_hists_wf[OF wy wx] hists_plus_commute[OF wx wy] by simp
    moreover have "ebind (sum_hists kernels (?pj x) (?pj y)) (\<lambda>h. sum_hists kernels h (?pj z))
              = ebind (sum_hists kernels (?pj y) (?pj z)) (\<lambda>h. sum_hists kernels (?pj x) h)"
      using sum_hists_wf[OF wx wy] sum_hists_wf[OF wy wz]
        sum_hists_wf[OF hists_plus_wf[OF wx wy] wz] sum_hists_wf[OF wx hists_plus_wf[OF wy wz]]
        hists_plus_assoc[OF wx wy wz]
      by (simp add: ebind_def)
    ultimately show ?thesis by blast
  qed
  show ?thesis using va same ac by (simp add: Let_def)
qed

lemmas hist_eval = histogram_scored_pixels_def kernel_histogram_def la_exp_value_def getcol_def
  pd_cut_def cut_bin_def obs_hist_column_def check_integer_def bincount_def group_rows_def
  frame_of_columns_def ebind_def upt_rec fgt_def

lemma drop_last_column:
  assumes "f \<noteq> []" and "distinct (map fst f)"
  shows "filter (\<lambda>(lbin, _). lbin \<noteq> fst (last f)) f = butlast f"
proof -
  have f: "f = butlast f @ [last f]" using assms(1) by simp
  have "distinct (map fst (butlast f @ [last f]))" using assms(2) f by simp
  then have "fst (last f) \<notin> fst ` set (butlast f)" by simp
  then have "\<forall>c\<in>set (butlast f). fst c \<noteq> fst (last f)" by (metis imageI)
  then have a: "filter (\<lambda>(lbin, _). lbin \<noteq> fst (last f)) (butlast f) = butlast f"
    by (auto simp: filter_id_conv)
  have "filter (\<lambda>(lbin, _). lbin \<noteq> fst (last f)) (butlast f @ [last f]) = butlast f"
    using a by (simp add: case_prod_unfold)
  then show ?thesis using f by simp
qed

lemma find_Some_member: "find P xs = Some x \<Longrightarrow> x \<in> set xs"
  by (induction xs) (auto split: if_splits)

lemma check_top_bins_char:
  assumes "distinct ks"
    and "\<forall>k\<in>set ks. \<exists>f. h k = Some f \<and> f \<noteq> [] \<and> distinct (map fst f)"
  shows "check_top_bins ks h =
     (case find (\<lambda>k. top_bin_count h k \<noteq> 0) ks of
        Some k \<Rightarrow> Inl (AssertionError (Some (k, fst (last (the (h k))))))
      | None \<Rightarrow> Inr (\<lambda>k. if k \<in> set ks then map_option butlast (h k) else h k))"
  using assms
proof (induction ks arbitrary: h)
  case Nil
  then show ?case by simp
next
  case (Cons k ks)
  from Cons.prems(2) obtain f where f: "h k = Some f" "f \<noteq> []" "distinct (map fst f)" by auto
  show ?case
  proof (cases "top_bin_count h k = 0")
    case False
    then have "sum_list (snd (last f)) \<noteq> 0" using f by (simp add: top_bin_count_def)
    then have "check_top_bins (k # ks) h = Inl (AssertionError (Some (k, fst (last f))))"
      using f by (simp only: check_top_bins.simps option.case Let_def if_False if_True not_False_eq_True)
    moreover have "find (\<lambda>k. top_bin_count h k \<noteq> 0) (k # ks) = Some k"
      using False by simp
    ultimately show ?thesis using f by (simp only: option.case option.sel)
  next
    case True
    define h' where "h' = h(k \<mapsto> butlast f)"
    have zero: "sum_list (snd (last f)) = 0" using True f by (simp add: top_bin_count_def)
    have "check_top_bins (k # ks) h
        = check_top_bins ks (h(k \<mapsto> filter (\<lambda>(lbin, _). lbin \<noteq> fst (last f)) f))"
      using f zero
      by (simp only: check_top_bins.simps option.case Let_def if_False if_True not_True_eq_False
            simp_thms)
    then have step: "check_top_bins (k # ks) h = check_top_bins ks h'"
      unfolding h'_def drop_last_column[OF f(2) f(3)] .
    have notin: "k \<notin> set ks" and dist: "distinct ks" using Cons.prems(1) by simp_all
    have same: "h' j = h j" if "j \<in> set ks" for j using that notin by (auto simp: h'_def)
    have pre: "\<forall>j\<in>set ks. \<exists>f. h' j = Some f \<and> f \<noteq> [] \<and> distinct (map fst f)"
      using Cons.prems(2) same by simp
    have tops: "find (\<lambda>j. top_bin_count h' j \<noteq> 0) ks = find (\<lambda>j. top_bin_count h j \<noteq> 0) ks"
      using same by (intro find_cong) (simp_all add: top_bin_count_def)
    have res: "(\<lambda>j. if j \<in> set ks then map_option butlast (h' j) else h' j)
             = (\<lambda>j. if j \<in> set (k # ks) then map_option butlast (h j) else h j)"
      using same f notin by (auto simp: h'_def)
    have err: "fst (last (the (h' j))) = fst (last (the (h j)))" if "j \<in> set ks" for j
      using same[OF that] by simp
    have "check_top_bins ks h' =
       (case find (\<lambda>j. top_bin_count h' j \<noteq> 0) ks of
          Some j \<Rightarrow> Inl (AssertionError (Some (j, fst (last (the (h' j))))))
        | None \<Rightarrow> Inr (\<lambda>j. if j \<in> set ks then map_option butlast (h' j) else h' j))"
      using dist pre by (rule Cons.IH)
    also have "\<dots> =
       (case find (\<lambda>j. top_bin_count h j \<noteq> 0) ks of
          Some j \<Rightarrow> Inl (AssertionError (Some (j, fst (last (the (h j))))))
        | None \<Rightarrow> Inr (\<lambda>j. if j \<in> set (k # ks) then map_option butlast (h j) else h j))"
      unfolding tops res using err by (auto split: option.splits dest: find_Some_member)
    finally show ?thesis using step True by simp
  qed
qed


lemma merge_tile_histograms_wf:
  assumes "merge_tile_histograms tiles ks ledges = Inr fh"
  shows "wf_hists ks (length ledges - 1) fh"
proof -
  from merge_tile_histograms_Inr[OF assms]
  have ne: "tiles \<noteq> []" and ok: "\<forall>t\<in>set tiles. \<exists>h. histogram_scored_pixels t ks ledges = Inr h"
    by simp_all
  from ne obtain t ts where tiles: "tiles = t # ts" by (cases tiles) auto
  have ok': "\<forall>u\<in>set (t # ts). \<exists>h. histogram_scored_pixels u ks ledges = Inr h"
    using ok tiles by simp
  have "fh = foldl (hists_plus ks) (projr (histogram_scored_pixels t ks ledges))
                   (map (\<lambda>t. projr (histogram_scored_pixels t ks ledges)) ts)"
    using merge_tile_histograms_value(1)[OF ok'] assms tiles by simp
  then show ?thesis using merge_tile_histograms_value(2)[OF ok'] by simp
qed

lemma wf_frame_last:
  assumes "wf_frame m f" and "0 < m"
  shows "f \<noteq> [] \<and> distinct (map fst f) \<and> fst (last f) = m - 1"
proof -
  have labels: "map fst f = [0..<m]" using assms(1) by (simp add: wf_frame_def)
  have "length (map fst f) = m" unfolding labels by simp
  then have ne: "f \<noteq> []" using assms(2) by auto
  have "fst (last f) = last (map fst f)" using ne by (simp add: last_map)
  also have "\<dots> = m - 1" using labels assms(2) by (simp add: last_upt)
  finally show ?thesis using ne labels by simp
qed

text \<open>
  C5. Once the tile histograms are merged, \<open>scoring_and_histogramming_step\<close> fails with the
  assertion that names a kernel and a lambda-bin exactly when some kernel has a non-zero
  total count in the last column (the top bin) of its merged frame; the kernel named is the
  first such kernel and the bin is the last bin of the ladder. Otherwise it returns the merged
  histogram with the last column of every kernel dropped.
\<close>

theorem top_bin_check:
  assumes merged: "merge_tile_histograms tiles kernels ledges = Inr final_hist"
    and dist: "distinct kernels"
    and edges: "2 \<le> length ledges"
  shows "((\<exists>k\<in>set kernels. top_bin_count final_hist k \<noteq> 0) \<longleftrightarrow>
            (\<exists>k lbin. scoring_and_histogramming_step tiles kernels ledges
                        = Inl (AssertionError (Some (k, lbin))))) \<and>
         scoring_and_histogramming_step tiles kernels ledges =
           (case find (\<lambda>k. top_bin_count final_hist k \<noteq> 0) kernels of
              Some k \<Rightarrow> Inl (AssertionError (Some (k, length ledges - 2)))
            | None \<Rightarrow> Inr (\<lambda>k. map_option butlast (final_hist k)))"
proof -
  let ?m = "length ledges - 1"
  have wf: "wf_hists kernels ?m final_hist" using merged by (rule merge_tile_histograms_wf)
  have m: "0 < ?m" using edges by simp
  have fr: "\<exists>f. final_hist k = Some f \<and> f \<noteq> [] \<and> distinct (map fst f) \<and> fst (last f) = ?m - 1"
    if "k \<in> set kernels" for k
    using wf_hists_frame[OF wf that] wf_frame_last[OF _ m] by blast
  have pre: "\<forall>k\<in>set kernels. \<exists>f. final_hist k = Some f \<and> f \<noteq> [] \<and> distinct (map fst f)"
    using fr by blast
  have bin: "fst (last (the (final_hist k))) = length ledges - 2" if "k \<in> set kernels" for k
    using fr[OF that] by auto
  have res: "(\<lambda>k. if k \<in> set kernels then map_option butlast (final_hist k) else final_hist k)
           = (\<lambda>k. map_option butlast (final_hist k))"
    using wf_hists_outside[OF wf] by auto
  have "scoring_and_histogramming_step tiles kernels ledges = check_top_bins kernels final_hist"
    using merged by (simp add: scoring_and_histogramming_step_def ebind_def)
  also have "\<dots> =
     (case find (\<lambda>k. top_bin_count final_hist k \<noteq> 0) kernels of
        Some k \<Rightarrow> Inl (AssertionError (Some (k, fst (last (the (final_hist k))))))
      | None \<Rightarrow> Inr (\<lambda>k. if k \<in> set kernels then map_option butlast (final_hist k) else final_hist k))"
    using dist pre by (rule check_top_bins_char)
  also have "\<dots> =
     (case find (\<lambda>k. top_bin_count final_hist k \<noteq> 0) kernels of
        Some k \<Rightarrow> Inl (AssertionError (Some (k, length ledges - 2)))
      | None \<Rightarrow> Inr (\<lambda>k. map_option butlast (final_hist k)))"
    unfolding res using bin by (auto split: option.splits dest: find_Some_member)
  finally have val: "scoring_and_histogramming_step tiles kernels ledges =
     (case find (\<lambda>k. top_bin_count final_hist k \<noteq> 0) kernels of
        Some k \<Rightarrow> Inl (AssertionError (Some (k, length ledges - 2)))
      | None \<Rightarrow> Inr (\<lambda>k. map_option butlast (final_hist k)))" .
  have "(\<exists>k\<in>set kernels. top_bin_count final_hist k \<noteq> 0) \<longleftrightarrow>
        find (\<lambda>k. top_bin_count final_hist k \<noteq> 0) kernels \<noteq> None"
    by (auto simp: find_None_iff)
  then have "(\<exists>k\<in>set kernels. top_bin_count final_hist k \<noteq> 0) \<longleftrightarrow>
            (\<exists>k lbin. scoring_and_histogramming_step tiles kernels ledges
                        = Inl (AssertionError (Some (k, lbin))))"
    unfolding val by (auto split: option.splits)
  then show ?thesis using val by blast
qed

lemmas example_defs = example_tile_a_def example_tile_b_def example_tile_c_def
  example_kernels_def example_ledges_def example_short_ledges_def

theorem histogram_merge_order_independent_witness:
  "(\<exists>h. histogram_scored_pixels example_tile_a example_kernels example_ledges = Inr h) \<and>
   (\<exists>h. histogram_scored_pixels example_tile_b example_kernels example_ledges = Inr h) \<and>
   (\<exists>h. histogram_scored_pixels example_tile_c example_kernels example_ledges = Inr h) \<and>
   [example_tile_a, example_tile_b, example_tile_c] \<noteq> [] \<and>
   mset [example_tile_c, example_tile_a, example_tile_b]
     = mset [example_tile_a, example_tile_b, example_tile_c] \<and>
   merge_tile_histograms [example_tile_c, example_tile_a, example_tile_b] example_kernels example_ledges
     = merge_tile_histograms [example_tile_a, example_tile_b, example_tile_c] example_kernels example_ledges"
proof -
  have a: "\<exists>h. histogram_scored_pixels example_tile_a example_kernels example_ledges = Inr h"
    by (simp add: hist_eval example_defs)
  have b: "\<exists>h. histogram_scored_pixels example_tile_b example_kernels example_ledges = Inr h"
    by (simp add: hist_eval example_defs)
  have c: "\<exists>h. histogram_scored_pixels example_tile_c example_kernels example_ledges = Inr h"
    by (simp add: hist_eval example_defs)
  have ok: "\<forall>t\<in>set [example_tile_a, example_tile_b, example_tile_c].
       \<exists>h. histogram_scored_pixels t example_kernels example_ledges = Inr h"
    using a b c by simp
  have ne: "[example_tile_a, example_tile_b, example_tile_c] \<noteq> []" by simp
  have perm: "mset [example_tile_c, example_tile_a, example_tile_b]
     = mset [example_tile_a, example_tile_b, example_tile_c]" by simp
  show ?thesis using a b c ne perm histogram_merge_order_independent[OF ok ne perm] by blast
qed

lemmas merge_eval = merge_tile_histograms_def sum_hists_def frame_add_def frame_rows_def
  frame_cell_def add_cells_def

theorem top_bin_check_witness:
  "distinct example_kernels \<and> 2 \<le> length example_short_ledges \<and>
   (\<exists>final_hist. merge_tile_histograms [example_tile_a, example_tile_b, example_tile_c]
        example_kernels example_short_ledges = Inr final_hist) \<and>
   scoring_and_histogramming_step [example_tile_a, example_tile_b, example_tile_c]
        example_kernels example_short_ledges = Inl (AssertionError (Some (''donut'', 1)))"
proof -
  have d: "distinct example_kernels" by (simp add: example_kernels_def)
  have e: "2 \<le> length example_short_ledges" by (simp add: example_short_ledges_def)
  obtain final_hist where
    m: "merge_tile_histograms [example_tile_a, example_tile_b, example_tile_c]
          example_kernels example_short_ledges = Inr final_hist"
    and top: "top_bin_count final_hist ''donut'' = 2"
    by (simp add: merge_eval hist_eval example_defs top_bin_count_def)
  have "find (\<lambda>k. top_bin_count final_hist k \<noteq> 0) example_kernels = Some ''donut''"
    using top by (simp add: example_kernels_def)
  then show ?thesis using d e m top_bin_check[OF m d e] by (simp add: example_short_ledges_def)
qed

section \<open>Properties of the extraction\<close>

lemma cell_value_cell_num:
  "map_of df c = Some xs \<Longrightarrow> cell_value df i c = cell_num (xs ! i)"
  by (simp add: cell_value_def cell_num_def)

lemma interval_loc_nth:
  assumes "interval_loc s keys = Inr t"
  shows "length t = length keys \<and>
         (\<forall>i<length keys. \<exists>v. num (keys ! i) = Inr v \<and> loc_matches s v = [t ! i])"
proof -
  from assms obtain vs where vs: "emap num keys = Inr vs"
    and none: "\<not> list_ex (\<lambda>v. loc_matches s v = []) vs"
    and many: "\<not> list_ex (\<lambda>v. 1 < length (loc_matches s v)) vs"
    and t: "t = map (\<lambda>v. hd (loc_matches s v)) vs"
    by (auto simp: interval_loc_def ebind_Inr_iff split: if_splits)
  from emap_Inr[OF vs] have l: "length vs = length keys"
    and n: "\<forall>i<length keys. num (keys ! i) = Inr (vs ! i)" by simp_all
  have "loc_matches s (vs ! i) = [t ! i]" if i: "i < length keys" for i
  proof -
    have mem: "vs ! i \<in> set vs" using i l by simp
    have "loc_matches s (vs ! i) \<noteq> []" using none mem by (auto simp: list_ex_iff)
    moreover have "length (loc_matches s (vs ! i)) \<le> 1"
      using many mem by (auto simp: list_ex_iff not_less)
    ultimately obtain c where c: "loc_matches s (vs ! i) = [c]"
      by (cases "loc_matches s (vs ! i)") auto
    then show ?thesis using t i l by simp
  qed
  then show ?thesis using l n t by auto
qed

lemma loc_matches_single:
  assumes "loc_matches s v = [c]"
  shows "list_ex (\<lambda>(iv, t). interval_contains iv v \<and> P t) s \<longleftrightarrow> P c"
proof -
  have "list_ex (\<lambda>(iv, t). interval_contains iv v \<and> P t) s
      \<longleftrightarrow> list_ex P (loc_matches s v)"
    unfolding loc_matches_def by (induction s) auto
  then show ?thesis using assms by simp
qed

lemma comply_fdr_loop_nth:
  assumes wf: "wf_dataframe df"
    and ok: "comply_fdr_loop df th ks acc = Inr msk"
    and len: "length acc = nrows df"
  shows "length msk = nrows df \<and>
         (\<forall>i<nrows df. msk ! i = (acc ! i \<and> list_all (exceeds_threshold df th i) ks))"
  using ok len
proof (induction ks arbitrary: acc)
  case Nil
  then show ?case by simp
next
  case (Cons k ks)
  from Cons.prems(1) obtain obs s la t ck where
    o: "map_of df ''obs.raw'' = Some obs"
    and s: "th k = Some s"
    and a: "map_of df (la_exp_value k) = Some la"
    and loc: "interval_loc s la = Inr t"
    and gt: "series_gt obs t = Inr ck"
    and rest: "comply_fdr_loop df th ks (series_and acc ck) = Inr msk"
    by (auto simp: ebind_Inr_iff getcol_Inr_iff split: option.splits)
  have lo: "length obs = nrows df" and la: "length la = nrows df"
    using wf o a by (simp_all add: wf_column_length)
  from interval_loc_nth[OF loc] la have lt: "length t = nrows df"
    and tn: "\<forall>i<nrows df. \<exists>v. num (la ! i) = Inr v \<and> loc_matches s v = [t ! i]"
    by simp_all
  from series_gt_nth[OF gt] lo lt have lck: "length ck = nrows df"
    and ckn: "\<forall>i<nrows df. \<exists>x y. num (obs ! i) = Inr x \<and> num (t ! i) = Inr y \<and> ck ! i = fgt x y"
    by simp_all
  have lacc: "length (series_and acc ck) = nrows df"
    using Cons.prems(2) lck by (simp add: series_and_def)
  from Cons.IH[OF rest lacc] have lm: "length msk = nrows df"
    and mn: "\<forall>i<nrows df. msk ! i = (series_and acc ck ! i \<and> list_all (exceeds_threshold df th i) ks)"
    by simp_all
  have "msk ! i = (acc ! i \<and> list_all (exceeds_threshold df th i) (k # ks))" if i: "i < nrows df" for i
  proof -
    from tn i obtain v where v: "num (la ! i) = Inr v" "loc_matches s v = [t ! i]" by blast
    from ckn i obtain x y where xy: "num (obs ! i) = Inr x" "num (t ! i) = Inr y" "ck ! i = fgt x y"
      by blast
    have cv: "cell_value df i (la_exp_value k) = v" using a v(1) by (rule cell_value_num)
    have co: "cell_value df i ''obs.raw'' = x" using o xy(1) by (rule cell_value_num)
    have cn: "cell_num (t ! i) = y" using xy(2) by (simp add: cell_num_def)
    have "exceeds_threshold df th i k = fgt x (cell_num (t ! i))"
      unfolding exceeds_threshold_def using s cv co
        loc_matches_single[OF v(2), of "\<lambda>c. fgt x (cell_num c)"] by simp
    then have e: "exceeds_threshold df th i k = ck ! i" using cn xy(3) by simp
    have "series_and acc ck ! i = (acc ! i \<and> ck ! i)"
      using i Cons.prems(2) lck by (simp add: series_and_def)
    then show ?thesis using mn i e by auto
  qed
  then show ?case using lm by blast
qed

lemma filter_rows_nth_list:
  assumes wf: "wf_dataframe df" and len: "length msk = nrows df"
  shows "filter_rows df msk
           = map (\<lambda>(c, xs). (c, map (\<lambda>i. xs ! i) (filter (\<lambda>i. msk ! i) [0..<nrows df]))) df"
proof -
  have "select_mask msk xs = map (\<lambda>i. xs ! i) (filter (\<lambda>i. msk ! i) [0..<nrows df])"
    if "(c, xs) \<in> set df" for c xs
  proof -
    have l: "length xs = nrows df" using wf that by (auto simp: wf_dataframe_def list_all_iff)
    show ?thesis using select_mask_nth_list[of msk xs] len l by simp
  qed
  then show ?thesis unfolding filter_rows_def by (auto intro!: map_cong)
qed

text \<open>
  C6. When \<open>extract_scored_pixels\<close> returns a table, the table holds exactly the rows of
  \<open>scored_df\<close>, in their order, whose observed count strictly exceeds, for every kernel, the
  threshold of the interval that contains the locally-adjusted expected of that kernel; a row
  that fails the strict inequality for one kernel is left out.
\<close>

theorem extract_scored_pixels_exact:
  assumes wf: "wf_dataframe scored_df"
    and ok: "extract_scored_pixels scored_df kernels thresholds ledges = Inr out"
  shows "out = map (\<lambda>(c, xs). (c, map (\<lambda>i. xs ! i) (complying_rows scored_df kernels thresholds)))
                 scored_df"
proof -
  from ok obtain msk where
    m: "comply_fdr_loop scored_df thresholds kernels (replicate (nrows scored_df) True) = Inr msk"
    and out: "out = filter_rows scored_df msk"
    by (auto simp: extract_scored_pixels_def ebind_Inr_iff)
  from comply_fdr_loop_nth[OF wf m] have lm: "length msk = nrows scored_df"
    and mn: "\<forall>i<nrows scored_df. msk ! i = list_all (exceeds_threshold scored_df thresholds i) kernels"
    by simp_all
  have "filter (\<lambda>i. msk ! i) [0..<nrows scored_df] = complying_rows scored_df kernels thresholds"
    unfolding complying_rows_def using mn by (intro filter_cong) simp_all
  then show ?thesis unfolding out using filter_rows_nth_list[OF wf lm] by simp
qed

lemmas extract_eval = extract_scored_pixels_def getcol_def la_exp_value_def interval_loc_def
  loc_matches_def interval_contains_def series_gt_def series_and_def ebind_def filter_rows_def
  select_mask_def fgt_def

theorem extract_scored_pixels_exact_witness:
  "wf_dataframe example_tile_a \<and>
   complying_rows example_tile_a example_kernels example_thresholds = [0, 2] \<and>
   extract_scored_pixels example_tile_a example_kernels example_thresholds example_ledges =
     Inr [(''obs.raw'', [Intg 3, Intg 3]),
          (''la_exp.donut.value'', [Num (Fin 0.5), Num (Fin 0.7)]),
          (''la_exp.lowleft.value'', [Num (Fin 1), Num (Fin 1.9)])]"
proof -
  have wf: "wf_dataframe example_tile_a"
    by (simp add: wf_dataframe_def example_tile_a_def nrows_def)
  have rows: "complying_rows example_tile_a example_kernels example_thresholds = [0, 2]"
    by (simp add: complying_rows_def exceeds_threshold_def cell_value_def cell_num_def
          la_exp_value_def interval_contains_def fgt_def nrows_def upt_rec
          example_tile_a_def example_kernels_def example_thresholds_def)
  obtain out where run:
    "extract_scored_pixels example_tile_a example_kernels example_thresholds example_ledges = Inr out"
    by (simp add: extract_eval nrows_def example_tile_a_def example_kernels_def
          example_thresholds_def)
  have "out = [(''obs.raw'', [Intg 3, Intg 3]),
          (''la_exp.donut.value'', [Num (Fin 0.5), Num (Fin 0.7)]),
          (''la_exp.lowleft.value'', [Num (Fin 1), Num (Fin 1.9)])]"
    using extract_scored_pixels_exact[OF wf run] rows by (simp add: example_tile_a_def)
  then show ?thesis using wf rows run by simp
qed

section \<open>Properties of the final filter\<close>

lemma obs_exceeds_nth:
  assumes wf: "wf_dataframe df" and ok: "obs_exceeds df k c = Inr bs"
  shows "length bs = nrows df \<and>
         (\<forall>i<nrows df. bs ! i = fgt (cell_value df i ''obs.raw'') (fmul (Fin k) (cell_value df i c)))"
proof -
  from ok obtain obs la scaled where
    o: "map_of df ''obs.raw'' = Some obs" and a: "map_of df c = Some la"
    and s: "scalar_mul k la = Inr scaled" and g: "series_gt obs scaled = Inr bs"
    by (auto simp: obs_exceeds_def ebind_Inr_iff getcol_Inr_iff)
  have lo: "length obs = nrows df" and la: "length la = nrows df"
    using wf o a by (simp_all add: wf_column_length)
  from scalar_mul_nth[OF s] have ls: "length scaled = nrows df"
    and sn: "\<forall>i<nrows df. \<exists>x. num (la ! i) = Inr x \<and> scaled ! i = Num (fmul (Fin k) x)"
    using la by simp_all
  from series_gt_nth[OF g] lo ls have lb: "length bs = nrows df"
    and gn: "\<forall>i<nrows df. \<exists>x y. num (obs ! i) = Inr x \<and> num (scaled ! i) = Inr y \<and> bs ! i = fgt x y"
    by simp_all
  have "bs ! i = fgt (cell_value df i ''obs.raw'') (fmul (Fin k) (cell_value df i c))"
    if "i < nrows df" for i
  proof -
    from sn that obtain x where x: "num (la ! i) = Inr x" "scaled ! i = Num (fmul (Fin k) x)" by blast
    from gn that obtain u y where u: "num (obs ! i) = Inr u" "num (scaled ! i) = Inr y" "bs ! i = fgt u y" by blast
    have "cell_value df i ''obs.raw'' = u" using o u(1) by (rule cell_value_num)
    moreover have "cell_value df i c = x" using a x(1) by (rule cell_value_num)
    ultimately show ?thesis using x u by simp
  qed
  then show ?thesis using lb by blast
qed


lemma qval_sum_nth:
  assumes wf: "wf_dataframe df" and ok: "qval_sum df = Inr qs"
  shows "length qs = nrows df \<and>
         (\<forall>i<nrows df. qs ! i =
            Num (fadd (fadd (fadd (cell_value df i ''la_exp.lowleft.qval'')
                                  (cell_value df i ''la_exp.donut.qval''))
                            (cell_value df i ''la_exp.vertical.qval''))
                      (cell_value df i ''la_exp.horizontal.qval'')))"
proof -
  from ok obtain q1 q2 s12 q3 s123 q4 where
    c1: "map_of df ''la_exp.lowleft.qval'' = Some q1"
    and c2: "map_of df ''la_exp.donut.qval'' = Some q2"
    and a12: "series_add q1 q2 = Inr s12"
    and c3: "map_of df ''la_exp.vertical.qval'' = Some q3"
    and a123: "series_add s12 q3 = Inr s123"
    and c4: "map_of df ''la_exp.horizontal.qval'' = Some q4"
    and a1234: "series_add s123 q4 = Inr qs"
    unfolding qval_sum_def ebind_Inr_iff getcol_Inr_iff by blast
  have l: "length q1 = nrows df" "length q2 = nrows df" "length q3 = nrows df" "length q4 = nrows df"
    using wf c1 c2 c3 c4 by (simp_all add: wf_column_length)
  from series_add_nth[OF a12] l have l12: "length s12 = nrows df"
    and n12: "\<forall>i<nrows df. \<exists>x y. num (q1 ! i) = Inr x \<and> num (q2 ! i) = Inr y \<and> s12 ! i = Num (fadd x y)"
    by simp_all
  from series_add_nth[OF a123] l l12 have l123: "length s123 = nrows df"
    and n123: "\<forall>i<nrows df. \<exists>x y. num (s12 ! i) = Inr x \<and> num (q3 ! i) = Inr y \<and> s123 ! i = Num (fadd x y)"
    by simp_all
  from series_add_nth[OF a1234] l l123 have lq: "length qs = nrows df"
    and nq: "\<forall>i<nrows df. \<exists>x y. num (s123 ! i) = Inr x \<and> num (q4 ! i) = Inr y \<and> qs ! i = Num (fadd x y)"
    by simp_all
  have "qs ! i = Num (fadd (fadd (fadd (cell_value df i ''la_exp.lowleft.qval'')
                                  (cell_value df i ''la_exp.donut.qval''))
                            (cell_value df i ''la_exp.vertical.qval''))
                      (cell_value df i ''la_exp.horizontal.qval''))"
    if i: "i < nrows df" for i
  proof -
    from n12 i obtain x1 x2 where x: "num (q1 ! i) = Inr x1" "num (q2 ! i) = Inr x2" "s12 ! i = Num (fadd x1 x2)"
      by blast
    from n123 i obtain u x3 where y: "num (s12 ! i) = Inr u" "num (q3 ! i) = Inr x3" "s123 ! i = Num (fadd u x3)"
      by blast
    from nq i obtain w x4 where z: "num (s123 ! i) = Inr w" "num (q4 ! i) = Inr x4" "qs ! i = Num (fadd w x4)"
      by blast
    have "cell_value df i ''la_exp.lowleft.qval'' = x1" using c1 x(1) by (rule cell_value_num)
    moreover have "cell_value df i ''la_exp.donut.qval'' = x2" using c2 x(2) by (rule cell_value_num)
    moreover have "cell_value df i ''la_exp.vertical.qval'' = x3" using c3 y(2) by (rule cell_value_num)
    moreover have "cell_value df i ''la_exp.horizontal.qval'' = x4" using c4 z(2) by (rule cell_value_num)
    ultimately show ?thesis using x y z by simp
  qed
  then show ?thesis using lq by blast
qed

lemma enrichment_fdr_comply_nth:
  assumes wf: "wf_dataframe df" and ok: "enrichment_fdr_comply df = Inr msk"
  shows "length msk = nrows df \<and>
         (\<forall>i<nrows df. msk ! i = passes_final_filter (cell_value df i))"
proof -
  from ok obtain m1 m2 m3 m4 m5 m6 c_size multi qsum orphan_ok where
    e1: "obs_exceeds df enrichment_factor_2 ''la_exp.lowleft.value'' = Inr m1"
    and e2: "obs_exceeds df enrichment_factor_2 ''la_exp.donut.value'' = Inr m2"
    and e3: "obs_exceeds df enrichment_factor_1 ''la_exp.vertical.value'' = Inr m3"
    and e4: "obs_exceeds df enrichment_factor_1 ''la_exp.horizontal.value'' = Inr m4"
    and e5: "obs_exceeds df enrichment_factor_3 ''la_exp.lowleft.value'' = Inr m5"
    and e6: "obs_exceeds df enrichment_factor_3 ''la_exp.donut.value'' = Inr m6"
    and cs: "map_of df ''c_size'' = Some c_size"
    and mu: "series_gt_scalar c_size 1 = Inr multi"
    and qs: "qval_sum df = Inr qsum"
    and orp: "series_le_scalar qsum FDR_orphan_threshold = Inr orphan_ok"
    and m: "msk = series_and (series_and (series_and (series_and (series_and m1 m2) m3) m4)
            (series_or m5 m6)) (series_or multi orphan_ok)"
    unfolding enrichment_fdr_comply_def ebind_Inr_iff getcol_Inr_iff by blast
  note x1 = obs_exceeds_nth[OF wf e1] and x2 = obs_exceeds_nth[OF wf e2]
    and x3 = obs_exceeds_nth[OF wf e3] and x4 = obs_exceeds_nth[OF wf e4]
    and x5 = obs_exceeds_nth[OF wf e5] and x6 = obs_exceeds_nth[OF wf e6]
  have lc: "length c_size = nrows df" using wf cs by (rule wf_column_length)
  from series_gt_scalar_nth[OF mu] lc have lmu: "length multi = nrows df"
    and nmu: "\<forall>i<nrows df. \<exists>x. num (c_size ! i) = Inr x \<and> multi ! i = fgt x (Fin 1)"
    by simp_all
  note q = qval_sum_nth[OF wf qs]
  from series_le_scalar_nth[OF orp] q have lor: "length orphan_ok = nrows df"
    and nor: "\<forall>i<nrows df. \<exists>x. num (qsum ! i) = Inr x \<and> orphan_ok ! i = fle x (Fin FDR_orphan_threshold)"
    by simp_all
  have len: "length msk = nrows df"
    using m x1 x2 x3 x4 x5 x6 lmu lor by (simp add: series_and_def series_or_def)
  have "msk ! i = passes_final_filter (cell_value df i)" if i: "i < nrows df" for i
  proof -
    from nmu i obtain cz where cz: "num (c_size ! i) = Inr cz" "multi ! i = fgt cz (Fin 1)" by blast
    have czv: "cell_value df i ''c_size'' = cz" using cs cz(1) by (rule cell_value_num)
    from nor i obtain qv where qv: "num (qsum ! i) = Inr qv" "orphan_ok ! i = fle qv (Fin FDR_orphan_threshold)"
      by blast
    have "msk ! i = (((((m1 ! i \<and> m2 ! i) \<and> m3 ! i) \<and> m4 ! i) \<and> (m5 ! i \<or> m6 ! i))
                     \<and> (multi ! i \<or> orphan_ok ! i))"
      using m i x1 x2 x3 x4 x5 x6 lmu lor by (simp add: series_and_def series_or_def)
    then show ?thesis
      using i x1 x2 x3 x4 x5 x6 cz czv qv q
      by (auto simp: passes_final_filter_def Let_def enrichment_factor_1_def
            enrichment_factor_2_def enrichment_factor_3_def FDR_orphan_threshold_def)
  qed
  then show ?thesis using len by blast
qed

text \<open>
  C8. When \<open>thresholding_step\<close> returns a table, the table holds the output columns of
  exactly the rows that pass the rule of the final filter, in their order: the observed count
  exceeds 1.75 times the locally-adjusted expected of donut and of lowleft, 1.5 times that of
  horizontal and of vertical, 2 times that of donut or of lowleft, and the cluster size
  exceeds 1 or the four q-values sum to at most 0.02.
\<close>

theorem thresholding_step_keeps_exactly:
  assumes wf: "wf_dataframe df" and ok: "thresholding_step df = Inr out"
  shows "out = map (\<lambda>c. (c, map (\<lambda>i. the (map_of df c) ! i) (kept_rows df))) columns_for_output"
proof -
  from ok obtain msk where m: "enrichment_fdr_comply df = Inr msk"
    and s: "select_columns (filter_rows df msk) columns_for_output = Inr out"
    by (auto simp: thresholding_step_def ebind_Inr_iff)
  from enrichment_fdr_comply_nth[OF wf m] have lm: "length msk = nrows df"
    and nm: "\<forall>i<nrows df. msk ! i = passes_final_filter (cell_value df i)" by simp_all
  have kept: "filter (\<lambda>i. msk ! i) [0..<nrows df] = kept_rows df"
    unfolding kept_rows_def using nm by (intro filter_cong) simp_all
  from select_columns_Inr[OF s]
  have pres: "\<forall>c\<in>set columns_for_output. map_of (filter_rows df msk) c \<noteq> None"
    and out: "out = map (\<lambda>c. (c, the (map_of (filter_rows df msk) c))) columns_for_output"
    by simp_all
  have "the (map_of (filter_rows df msk) c) = map (\<lambda>i. the (map_of df c) ! i) (kept_rows df)"
    if c: "c \<in> set columns_for_output" for c
  proof -
    from pres c obtain xs where xs: "map_of df c = Some xs"
      by (auto simp: map_of_filter_rows)
    have l: "length xs = nrows df" using wf xs by (rule wf_column_length)
    have "the (map_of (filter_rows df msk) c) = select_mask msk xs"
      using xs by (simp add: map_of_filter_rows)
    also have "\<dots> = map (\<lambda>i. xs ! i) (filter (\<lambda>i. msk ! i) [0..<length xs])"
      using lm l by (intro select_mask_nth_list) simp
    finally show ?thesis using xs l kept by simp
  qed
  then show ?thesis using out by simp
qed

lemma thresholding_step_Inr_columns:
  assumes "thresholding_step df = Inr out"
  shows "\<forall>c\<in>set required_columns. map_of df c \<noteq> None"
proof -
  from assms obtain msk where m: "enrichment_fdr_comply df = Inr msk"
    and s: "select_columns (filter_rows df msk) columns_for_output = Inr out"
    by (auto simp: thresholding_step_def ebind_Inr_iff)
  from select_columns_Inr[OF s]
  have "\<forall>c\<in>set columns_for_output. map_of df c \<noteq> None"
    by (auto simp: map_of_filter_rows)
  moreover have "set required_columns \<subseteq> set columns_for_output"
    by (simp add: required_columns_def columns_for_output_def)
  ultimately show ?thesis by blast
qed

text \<open>
  C10. On a table that lacks one of the four q-value columns or the column
  \<^verbatim>\<open>factor_balance.lowleft.KerObs\<close>, \<open>thresholding_step\<close> raises an error and returns no
  table.
\<close>

theorem thresholding_step_requires_columns:
  assumes "c \<in> set required_columns" and "map_of df c = None"
  shows "isl (thresholding_step df)"
proof (cases "thresholding_step df")
  case (Inl e)
  then show ?thesis by simp
next
  case (Inr out)
  then show ?thesis using thresholding_step_Inr_columns[OF Inr] assms by blast
qed


theorem thresholding_step_keeps_exactly_witness:
  "wf_dataframe example_centroids \<and>
   kept_rows example_centroids = [0, 2] \<and>
   thresholding_step example_centroids =
     Inr (map (\<lambda>c. (c, map (\<lambda>i. the (map_of example_centroids c) ! i) [0, 2])) columns_for_output)"
proof -
  have wf: "wf_dataframe example_centroids"
    by (simp add: wf_dataframe_def example_centroids_def nrows_def)
  have kept: "kept_rows example_centroids = [0, 2]"
    by (simp add: kept_rows_def nrows_def example_centroids_def passes_final_filter_def
          cell_value_def fgt_def upt_rec)
  obtain out where run: "thresholding_step example_centroids = Inr out"
    by (simp add: thresholding_step_def enrichment_fdr_comply_def obs_exceeds_def qval_sum_def
          getcol_def ebind_def example_centroids_def scalar_mul_def series_gt_def series_add_def
          series_gt_scalar_def series_le_scalar_def series_and_def series_or_def
          select_columns_def filter_rows_def select_mask_def columns_for_output_def)
  show ?thesis using wf kept run thresholding_step_keeps_exactly[OF wf run] by simp
qed

theorem thresholding_step_requires_columns_witness:
  "''factor_balance.lowleft.KerObs'' \<in> set required_columns \<and>
   map_of example_without_balance ''factor_balance.lowleft.KerObs'' = None \<and>
   isl (thresholding_step example_without_balance)"
proof -
  have a: "''factor_balance.lowleft.KerObs'' \<in> set required_columns"
    by (simp add: required_columns_def)
  have b: "map_of example_without_balance ''factor_balance.lowleft.KerObs'' = None"
    by (simp add: example_without_balance_def example_centroids_def)
  show ?thesis using a b thresholding_step_requires_columns[OF a b] by simp
qed

end
